theory Spec2Isabelle
  imports Main "HOL-Library.Char_ord" "HOL-Library.List_Lexorder"
begin

section \<open>Raw trees and Python values\<close>

text \<open>
  The raw tree is what a JSON/YAML/TOML decoder returns: scalars, dicts with string keys
  (insertion ordered, hence association lists) and lists. Floats are left out of the
  scalars; no operation of the wrappers inspects a scalar.
\<close>

datatype scalar = SNone | SBool bool | SInt int | SStr string

datatype raw = Scalar scalar | RDict "(string \<times> raw) list" | RList "raw list"

type_synonym addr = nat

text \<open>
  What a caller holds after a read: a plain Python value, or a reference to a tracked
  node living in the store.
\<close>

datatype val = Plain raw | Ref addr

datatype error = KeyError | IndexError

subsection \<open>Python dict and list primitives on association lists\<close>

definition has_key :: "('k \<times> 'v) list \<Rightarrow> 'k \<Rightarrow> bool" where
  "has_key d k = (map_of d k \<noteq> None)"

definition subscript :: "('k \<times> 'v) list \<Rightarrow> 'k \<Rightarrow> error + 'v" where
  "subscript d k = (case map_of d k of None \<Rightarrow> Inl KeyError | Some v \<Rightarrow> Inr v)"

definition dict_keys :: "('k \<times> 'v) list \<Rightarrow> 'k list" where
  "dict_keys d = map fst d"

definition dict_vals :: "('k \<times> 'v) list \<Rightarrow> 'v list" where
  "dict_vals d = map snd d"

text \<open>\<open>d[k] = v\<close>: an existing key keeps its position, a new key goes last.\<close>

fun setitem :: "('k \<times> 'v) list \<Rightarrow> 'k \<Rightarrow> 'v \<Rightarrow> ('k \<times> 'v) list" where
  "setitem [] k v = [(k, v)]"
| "setitem ((k', v') # d) k v = (if k' = k then (k, v) # d else (k', v') # setitem d k v)"

text \<open>
  \<open>xs[i]\<close> on a list of length \<open>n\<close>: the positions \<open>0 .. n - 1\<close> are read directly, the
  positions \<open>-n .. -1\<close> are read from the back, every other integer raises \<open>IndexError\<close>.
\<close>

definition list_subscript :: "'a list \<Rightarrow> int \<Rightarrow> error + 'a" where
  "list_subscript xs i =
     (if 0 \<le> i \<and> i < int (length xs) then Inr (xs ! nat i)
      else if i < 0 \<and> - int (length xs) \<le> i then Inr (xs ! nat (int (length xs) + i))
      else Inl IndexError)"

subsection \<open>Decimal rendering of integers (\<open>str(int)\<close>)\<close>

definition digit_char :: "nat \<Rightarrow> char" where
  "digit_char n = ''0123456789'' ! n"

function str_nat :: "nat \<Rightarrow> string" where
  "str_nat n = (if n < 10 then [digit_char n] else str_nat (n div 10) @ [digit_char (n mod 10)])"
  by pat_completeness auto
termination
  by (relation "measure (\<lambda>n. n)") auto

declare str_nat.simps [simp del]

definition str_int :: "int \<Rightarrow> string" where
  "str_int i = (if i < 0 then ''-'' @ str_nat (nat (- i)) else str_nat (nat i))"

subsection \<open>Equality of raw values (\<open>==\<close>)\<close>

text \<open>\<open>bool\<close> is a subclass of \<open>int\<close> in Python: \<open>True == 1\<close>.\<close>

fun scalar_eq :: "scalar \<Rightarrow> scalar \<Rightarrow> bool" where
  "scalar_eq SNone SNone = True"
| "scalar_eq (SBool b) (SBool c) = (b = c)"
| "scalar_eq (SInt i) (SInt j) = (i = j)"
| "scalar_eq (SBool b) (SInt j) = ((if b then 1 else 0) = j)"
| "scalar_eq (SInt i) (SBool c) = (i = (if c then 1 else 0))"
| "scalar_eq (SStr s) (SStr t) = (s = t)"
| "scalar_eq _ _ = False"

text \<open>
  Lists compare element by element; dicts compare as mappings, whatever the insertion
  order: equal sizes, and every key of the left one is in the right one with an equal value.
\<close>

function (sequential) py_eq :: "raw \<Rightarrow> raw \<Rightarrow> bool" where
  "py_eq (Scalar s) (Scalar t) = scalar_eq s t"
| "py_eq (RList xs) (RList ys) =
     (length xs = length ys \<and> (\<forall>i < length xs. py_eq (xs ! i) (ys ! i)))"
| "py_eq (RDict d) (RDict e) =
     (length d = length e \<and>
      (\<forall>(k, v) \<in> set d. case map_of e k of None \<Rightarrow> False | Some w \<Rightarrow> py_eq v w))"
| "py_eq _ _ = False"
  by pat_completeness auto
termination
proof (relation "measure (\<lambda>(x, y). size x)", goal_cases)
  case 1
  show ?case by simp
next
  case (2 xs ys i)
  then have "xs ! i \<in> set xs" by simp
  then have "size (xs ! i) \<le> size_list size xs" by (simp add: size_list_estimation')
  then show ?case by simp
next
  case (3 d e p k v w)
  have "(k, v) \<in> set d \<Longrightarrow> size v < Suc (size_list (size_prod (\<lambda>x. 0) size) d)"
    by (induction d) auto
  with 3 show ?case by simp
qed

section \<open>Tracked nodes and the store\<close>

text \<open>
  The two classes, with the slots of the source. \<open>_children\<close> holds references, so a child
  is an address into the store; the store is the list of all tracked nodes ever created and
  an object's identity is its index.
\<close>

record tracked_dict =
  d_data :: "(string \<times> raw) list"
  d_path :: string
  d_accessed :: "string set"
  d_children :: "(string \<times> addr) list"

record tracked_list =
  l_data :: "raw list"
  l_path :: string
  l_children :: "(int \<times> addr) list"

datatype obj = DictObj (the_dict: tracked_dict) | ListObj (the_list: tracked_list)

type_synonym heap = "obj list"

text \<open>The constructors \<open>__init__\<close>.\<close>

definition TrackedDict :: "(string \<times> raw) list \<Rightarrow> string \<Rightarrow> tracked_dict" where
  "TrackedDict dat p = \<lparr>d_data = dat, d_path = p, d_accessed = {}, d_children = []\<rparr>"

definition TrackedList :: "raw list \<Rightarrow> string \<Rightarrow> tracked_list" where
  "TrackedList dat p = \<lparr>l_data = dat, l_path = p, l_children = []\<rparr>"

definition alloc :: "heap \<Rightarrow> obj \<Rightarrow> addr \<times> heap" where
  "alloc h ob = (length h, h @ [ob])"

text \<open>
  The receiver \<open>self\<close> of a method is an address whose object is of the method's class;
  \<open>is_dict\<close> and \<open>is_list\<close> say so.
\<close>

definition is_dict :: "heap \<Rightarrow> addr \<Rightarrow> bool" where
  "is_dict h a = (a < length h \<and> (case h ! a of DictObj _ \<Rightarrow> True | ListObj _ \<Rightarrow> False))"

definition is_list :: "heap \<Rightarrow> addr \<Rightarrow> bool" where
  "is_list h a = (a < length h \<and> (case h ! a of DictObj _ \<Rightarrow> False | ListObj _ \<Rightarrow> True))"

definition dict_at :: "heap \<Rightarrow> addr \<Rightarrow> tracked_dict" where
  "dict_at h a = the_dict (h ! a)"

definition list_at :: "heap \<Rightarrow> addr \<Rightarrow> tracked_list" where
  "list_at h a = the_list (h ! a)"

definition upd_dict :: "heap \<Rightarrow> addr \<Rightarrow> (tracked_dict \<Rightarrow> tracked_dict) \<Rightarrow> heap" where
  "upd_dict h a f = h[a := DictObj (f (dict_at h a))]"

definition upd_list :: "heap \<Rightarrow> addr \<Rightarrow> (tracked_list \<Rightarrow> tracked_list) \<Rightarrow> heap" where
  "upd_list h a f = h[a := ListObj (f (list_at h a))]"

section \<open>TrackedDict\<close>

definition td_child_path :: "tracked_dict \<Rightarrow> string \<Rightarrow> string" where
  "td_child_path self key = (if d_path self \<noteq> [] then d_path self @ ''.'' @ key else key)"

text \<open>
  \<open>_wrap\<close>: a dict or list value is answered by the cached child, created first when the
  key has none; any other value is returned as it is.
\<close>

definition td_wrap :: "heap \<Rightarrow> addr \<Rightarrow> string \<Rightarrow> raw \<Rightarrow> (error + val) \<times> heap" where
  "td_wrap h a key v =
     (case v of
        RDict d \<Rightarrow>
          (let h1 = (if \<not> has_key (d_children (dict_at h a)) key
                     then (let (c, h') = alloc h (DictObj (TrackedDict d (td_child_path (dict_at h a) key)))
                           in upd_dict h' a (\<lambda>s. s\<lparr>d_children := setitem (d_children s) key c\<rparr>))
                     else h)
           in (case subscript (d_children (dict_at h1 a)) key of
                 Inl e \<Rightarrow> (Inl e, h1)
               | Inr c \<Rightarrow> (Inr (Ref c), h1)))
      | RList xs \<Rightarrow>
          (let h1 = (if \<not> has_key (d_children (dict_at h a)) key
                     then (let (c, h') = alloc h (ListObj (TrackedList xs (td_child_path (dict_at h a) key)))
                           in upd_dict h' a (\<lambda>s. s\<lparr>d_children := setitem (d_children s) key c\<rparr>))
                     else h)
           in (case subscript (d_children (dict_at h1 a)) key of
                 Inl e \<Rightarrow> (Inl e, h1)
               | Inr c \<Rightarrow> (Inr (Ref c), h1)))
      | Scalar s \<Rightarrow> (Inr (Plain v), h))"

definition td_add_accessed :: "heap \<Rightarrow> addr \<Rightarrow> string set \<Rightarrow> heap" where
  "td_add_accessed h a ks = upd_dict h a (\<lambda>s. s\<lparr>d_accessed := d_accessed s \<union> ks\<rparr>)"

definition td_getitem :: "heap \<Rightarrow> addr \<Rightarrow> string \<Rightarrow> (error + val) \<times> heap" where
  "td_getitem h a key =
     (let h1 = td_add_accessed h a {key}
      in case subscript (d_data (dict_at h1 a)) key of
           Inl e \<Rightarrow> (Inl e, h1)
         | Inr v \<Rightarrow> td_wrap h1 a key v)"

definition td_get :: "heap \<Rightarrow> addr \<Rightarrow> string \<Rightarrow> val \<Rightarrow> (error + val) \<times> heap" where
  "td_get h a key dflt =
     (let h1 = td_add_accessed h a {key}
      in if has_key (d_data (dict_at h1 a)) key
         then (case subscript (d_data (dict_at h1 a)) key of
                 Inl e \<Rightarrow> (Inl e, h1)
               | Inr v \<Rightarrow> td_wrap h1 a key v)
         else (Inr dflt, h1))"

definition td_contains :: "heap \<Rightarrow> addr \<Rightarrow> string \<Rightarrow> bool" where
  "td_contains h a key = has_key (d_data (dict_at h a)) key"

definition td_len :: "heap \<Rightarrow> addr \<Rightarrow> nat" where
  "td_len h a = length (d_data (dict_at h a))"

definition td_bool :: "heap \<Rightarrow> addr \<Rightarrow> bool" where
  "td_bool h a = (d_data (dict_at h a) \<noteq> [])"

definition td_iter :: "heap \<Rightarrow> addr \<Rightarrow> string list" where
  "td_iter h a = dict_keys (d_data (dict_at h a))"

definition td_keys :: "heap \<Rightarrow> addr \<Rightarrow> string list" where
  "td_keys h a = dict_keys (d_data (dict_at h a))"

text \<open>
  \<open>values\<close> and \<open>items\<close> are generators; the model runs them to exhaustion, as
  \<open>list(d.values())\<close> or a \<open>for\<close> loop does. The body first marks every key, then the loop
  wraps one value per key.
\<close>

fun td_items_loop ::
  "heap \<Rightarrow> addr \<Rightarrow> string list \<Rightarrow> (string \<times> val) list \<Rightarrow> (error + (string \<times> val) list) \<times> heap" where
  "td_items_loop h a [] out = (Inr out, h)"
| "td_items_loop h a (key # ks) out =
     (case subscript (d_data (dict_at h a)) key of
        Inl e \<Rightarrow> (Inl e, h)
      | Inr v \<Rightarrow>
          (case td_wrap h a key v of
             (Inl e, h') \<Rightarrow> (Inl e, h')
           | (Inr w, h') \<Rightarrow> td_items_loop h' a ks (out @ [(key, w)])))"

definition td_items :: "heap \<Rightarrow> addr \<Rightarrow> (error + (string \<times> val) list) \<times> heap" where
  "td_items h a =
     (let h1 = td_add_accessed h a (set (dict_keys (d_data (dict_at h a))))
      in td_items_loop h1 a (dict_keys (d_data (dict_at h1 a))) [])"

fun td_values_loop ::
  "heap \<Rightarrow> addr \<Rightarrow> string list \<Rightarrow> val list \<Rightarrow> (error + val list) \<times> heap" where
  "td_values_loop h a [] out = (Inr out, h)"
| "td_values_loop h a (key # ks) out =
     (case subscript (d_data (dict_at h a)) key of
        Inl e \<Rightarrow> (Inl e, h)
      | Inr v \<Rightarrow>
          (case td_wrap h a key v of
             (Inl e, h') \<Rightarrow> (Inl e, h')
           | (Inr w, h') \<Rightarrow> td_values_loop h' a ks (out @ [w])))"

definition td_values :: "heap \<Rightarrow> addr \<Rightarrow> (error + val list) \<times> heap" where
  "td_values h a =
     (let h1 = td_add_accessed h a (set (dict_keys (d_data (dict_at h a))))
      in td_values_loop h1 a (dict_keys (d_data (dict_at h1 a))) [])"

definition td_raw :: "heap \<Rightarrow> addr \<Rightarrow> raw" where
  "td_raw h a = RDict (d_data (dict_at h a))"

definition td_mark_accessed :: "heap \<Rightarrow> addr \<Rightarrow> string list \<Rightarrow> heap" where
  "td_mark_accessed h a keys = td_add_accessed h a (set keys)"

definition td_mark_all_accessed :: "heap \<Rightarrow> addr \<Rightarrow> heap" where
  "td_mark_all_accessed h a = td_add_accessed h a (set (dict_keys (d_data (dict_at h a))))"

definition td_accessed_keys :: "heap \<Rightarrow> addr \<Rightarrow> string set" where
  "td_accessed_keys h a = d_accessed (dict_at h a)"

text \<open>
  \<open>unaccessed\<close> calls itself on children, whatever their class. The recursion follows
  references through the store, so it is bounded by a counter: \<open>None\<close> stands for a call
  that does not return within the bound (or meets a reference outside the store).
  \<open>td_collect\<close> is the loop of \<open>TrackedDict.unaccessed\<close> with its accumulator \<open>result\<close>,
  \<open>tl_collect\<close> the loop of \<open>TrackedList.unaccessed\<close>; \<open>sub\<close> is the recursive call.
\<close>

fun td_collect ::
  "(addr \<Rightarrow> string list option) \<Rightarrow> tracked_dict \<Rightarrow> string list \<Rightarrow> string list \<Rightarrow> string list option" where
  "td_collect sub self [] result = Some result"
| "td_collect sub self (key # ks) result =
     (let path = td_child_path self key
      in if key \<notin> d_accessed self then td_collect sub self ks (result @ [path])
         else if has_key (d_children self) key
         then (case subscript (d_children self) key of
                 Inl e \<Rightarrow> None
               | Inr c \<Rightarrow>
                   (case sub c of
                      None \<Rightarrow> None
                    | Some r \<Rightarrow> td_collect sub self ks (result @ r)))
         else td_collect sub self ks result)"

fun tl_collect ::
  "(addr \<Rightarrow> string list option) \<Rightarrow> addr list \<Rightarrow> string list \<Rightarrow> string list option" where
  "tl_collect sub [] result = Some result"
| "tl_collect sub (c # cs) result =
     (case sub c of
        None \<Rightarrow> None
      | Some r \<Rightarrow> tl_collect sub cs (result @ r))"

fun unaccessed_aux :: "nat \<Rightarrow> heap \<Rightarrow> addr \<Rightarrow> string list option" where
  "unaccessed_aux 0 h a = None"
| "unaccessed_aux (Suc n) h a =
     (if a < length h
      then (case h ! a of
              DictObj self \<Rightarrow>
                map_option sort (td_collect (unaccessed_aux n h) self (dict_keys (d_data self)) [])
            | ListObj self \<Rightarrow>
                map_option sort (tl_collect (unaccessed_aux n h) (dict_vals (l_children self)) []))
      else None)"

text \<open>The bound is the number of objects in the store: no chain of children is longer.\<close>

definition unaccessed :: "heap \<Rightarrow> addr \<Rightarrow> string list option" where
  "unaccessed h a = unaccessed_aux (length h) h a"

text \<open>\<open>__eq__\<close>: \<open>None\<close> is Python's \<open>NotImplemented\<close>.\<close>

definition td_eq :: "heap \<Rightarrow> addr \<Rightarrow> val \<Rightarrow> bool option" where
  "td_eq h a other =
     (case other of
        Ref b \<Rightarrow>
          (case h ! b of
             DictObj ob \<Rightarrow> Some (py_eq (RDict (d_data (dict_at h a))) (RDict (d_data ob)))
           | ListObj ob \<Rightarrow> None)
      | Plain (RDict e) \<Rightarrow> Some (py_eq (RDict (d_data (dict_at h a))) (RDict e))
      | Plain _ \<Rightarrow> None)"

section \<open>TrackedList\<close>

definition tl_child_path :: "tracked_list \<Rightarrow> int \<Rightarrow> string" where
  "tl_child_path self index = l_path self @ ''['' @ str_int index @ '']''"

definition tl_wrap :: "heap \<Rightarrow> addr \<Rightarrow> int \<Rightarrow> raw \<Rightarrow> (error + val) \<times> heap" where
  "tl_wrap h a index v =
     (case v of
        RDict d \<Rightarrow>
          (let h1 = (if \<not> has_key (l_children (list_at h a)) index
                     then (let (c, h') = alloc h (DictObj (TrackedDict d (tl_child_path (list_at h a) index)))
                           in upd_list h' a (\<lambda>s. s\<lparr>l_children := setitem (l_children s) index c\<rparr>))
                     else h)
           in (case subscript (l_children (list_at h1 a)) index of
                 Inl e \<Rightarrow> (Inl e, h1)
               | Inr c \<Rightarrow> (Inr (Ref c), h1)))
      | RList xs \<Rightarrow>
          (let h1 = (if \<not> has_key (l_children (list_at h a)) index
                     then (let (c, h') = alloc h (ListObj (TrackedList xs (tl_child_path (list_at h a) index)))
                           in upd_list h' a (\<lambda>s. s\<lparr>l_children := setitem (l_children s) index c\<rparr>))
                     else h)
           in (case subscript (l_children (list_at h1 a)) index of
                 Inl e \<Rightarrow> (Inl e, h1)
               | Inr c \<Rightarrow> (Inr (Ref c), h1)))
      | Scalar s \<Rightarrow> (Inr (Plain v), h))"

definition tl_getitem :: "heap \<Rightarrow> addr \<Rightarrow> int \<Rightarrow> (error + val) \<times> heap" where
  "tl_getitem h a index =
     (case list_subscript (l_data (list_at h a)) index of
        Inl e \<Rightarrow> (Inl e, h)
      | Inr v \<Rightarrow> tl_wrap h a index v)"

definition tl_len :: "heap \<Rightarrow> addr \<Rightarrow> nat" where
  "tl_len h a = length (l_data (list_at h a))"

definition tl_bool :: "heap \<Rightarrow> addr \<Rightarrow> bool" where
  "tl_bool h a = (l_data (list_at h a) \<noteq> [])"

text \<open>\<open>__iter__\<close>, run to exhaustion: \<open>for i in range(len(self._data))\<close>.\<close>

fun tl_iter_loop :: "heap \<Rightarrow> addr \<Rightarrow> nat list \<Rightarrow> val list \<Rightarrow> (error + val list) \<times> heap" where
  "tl_iter_loop h a [] out = (Inr out, h)"
| "tl_iter_loop h a (i # rest) out =
     (case list_subscript (l_data (list_at h a)) (int i) of
        Inl e \<Rightarrow> (Inl e, h)
      | Inr v \<Rightarrow>
          (case tl_wrap h a (int i) v of
             (Inl e, h') \<Rightarrow> (Inl e, h')
           | (Inr w, h') \<Rightarrow> tl_iter_loop h' a rest (out @ [w])))"

definition tl_iter :: "heap \<Rightarrow> addr \<Rightarrow> (error + val list) \<times> heap" where
  "tl_iter h a = tl_iter_loop h a [0 ..< length (l_data (list_at h a))] []"

definition tl_raw :: "heap \<Rightarrow> addr \<Rightarrow> raw" where
  "tl_raw h a = RList (l_data (list_at h a))"

definition tl_eq :: "heap \<Rightarrow> addr \<Rightarrow> val \<Rightarrow> bool option" where
  "tl_eq h a other =
     (case other of
        Ref b \<Rightarrow>
          (case h ! b of
             ListObj ob \<Rightarrow> Some (py_eq (RList (l_data (list_at h a))) (RList (l_data ob)))
           | DictObj ob \<Rightarrow> None)
      | Plain (RList ys) \<Rightarrow> Some (py_eq (RList (l_data (list_at h a))) (RList ys))
      | Plain _ \<Rightarrow> None)"

section \<open>The public operations as one interface\<close>

text \<open>
  Every public operation of a node, as a command with its arguments, and one function that
  runs a command on a receiver: it returns the store afterwards together with the value or
  the exception raised, or \<open>None\<close> when the call does not return.
\<close>

datatype dict_op =
    DGetItem string | DGet string val | DContains string | DLen | DBool | DIter | DKeys
  | DValues | DItems | DRaw | DMarkAccessed "string list" | DMarkAllAccessed
  | DUnaccessed | DAccessedKeys | DEq val

datatype list_op = LGetItem int | LLen | LBool | LIter | LRaw | LUnaccessed | LEq val

datatype result =
    RVal val | RBool bool | RNat nat | RKeys "string list" | RVals "val list"
  | RItems "(string \<times> val) list" | RPaths "string list" | RKeySet "string set"
  | RRaw raw | RNone | RNotImplemented

definition returning :: "('a \<Rightarrow> result) \<Rightarrow> (error + 'a) \<times> heap \<Rightarrow> ((error + result) \<times> heap) option" where
  "returning f r = Some (map_sum id f (fst r), snd r)"

definition eq_result :: "bool option \<Rightarrow> result" where
  "eq_result r = (case r of None \<Rightarrow> RNotImplemented | Some b \<Rightarrow> RBool b)"

fun td_exec :: "heap \<Rightarrow> addr \<Rightarrow> dict_op \<Rightarrow> ((error + result) \<times> heap) option" where
  "td_exec h a (DGetItem key) = returning RVal (td_getitem h a key)"
| "td_exec h a (DGet key dflt) = returning RVal (td_get h a key dflt)"
| "td_exec h a (DContains key) = Some (Inr (RBool (td_contains h a key)), h)"
| "td_exec h a DLen = Some (Inr (RNat (td_len h a)), h)"
| "td_exec h a DBool = Some (Inr (RBool (td_bool h a)), h)"
| "td_exec h a DIter = Some (Inr (RKeys (td_iter h a)), h)"
| "td_exec h a DKeys = Some (Inr (RKeys (td_keys h a)), h)"
| "td_exec h a DValues = returning RVals (td_values h a)"
| "td_exec h a DItems = returning RItems (td_items h a)"
| "td_exec h a DRaw = Some (Inr (RRaw (td_raw h a)), h)"
| "td_exec h a (DMarkAccessed keys) = Some (Inr RNone, td_mark_accessed h a keys)"
| "td_exec h a DMarkAllAccessed = Some (Inr RNone, td_mark_all_accessed h a)"
| "td_exec h a DUnaccessed = map_option (\<lambda>ps. (Inr (RPaths ps), h)) (unaccessed h a)"
| "td_exec h a DAccessedKeys = Some (Inr (RKeySet (td_accessed_keys h a)), h)"
| "td_exec h a (DEq other) = Some (Inr (eq_result (td_eq h a other)), h)"

fun tl_exec :: "heap \<Rightarrow> addr \<Rightarrow> list_op \<Rightarrow> ((error + result) \<times> heap) option" where
  "tl_exec h a (LGetItem index) = returning RVal (tl_getitem h a index)"
| "tl_exec h a LLen = Some (Inr (RNat (tl_len h a)), h)"
| "tl_exec h a LBool = Some (Inr (RBool (tl_bool h a)), h)"
| "tl_exec h a LIter = returning RVals (tl_iter h a)"
| "tl_exec h a LRaw = Some (Inr (RRaw (tl_raw h a)), h)"
| "tl_exec h a LUnaccessed = map_option (\<lambda>ps. (Inr (RPaths ps), h)) (unaccessed h a)"
| "tl_exec h a (LEq other) = Some (Inr (eq_result (tl_eq h a other)), h)"

section \<open>Well-formed stores\<close>

text \<open>
  A child is created after its parent, so its address is larger, and it is in the store.
\<close>

definition child_addrs :: "obj \<Rightarrow> addr list" where
  "child_addrs ob =
     (case ob of
        DictObj s \<Rightarrow> dict_vals (d_children s)
      | ListObj s \<Rightarrow> dict_vals (l_children s))"

definition wf_heap :: "heap \<Rightarrow> bool" where
  "wf_heap h = (\<forall>a < length h. \<forall>c \<in> set (child_addrs (h ! a)). a < c \<and> c < length h)"

text \<open>
  The shadow tree mirrors the raw tree: a cached child sits under a key (an index) that the
  raw data has, it is a node of the class of the value there, over that value, and its path
  is the one \<open>_wrap\<close> composes. \<open>node_for\<close> is the node \<open>_wrap\<close> creates for a value
  (none for a scalar), \<open>node_over\<close> says that an object is such a node.
\<close>

definition node_for :: "raw \<Rightarrow> string \<Rightarrow> obj option" where
  "node_for v p =
     (case v of
        RDict d \<Rightarrow> Some (DictObj (TrackedDict d p))
      | RList xs \<Rightarrow> Some (ListObj (TrackedList xs p))
      | Scalar s \<Rightarrow> None)"

definition node_over :: "obj \<Rightarrow> raw \<Rightarrow> string \<Rightarrow> bool" where
  "node_over ob v p =
     (case v of
        RDict d \<Rightarrow> (case ob of DictObj s \<Rightarrow> d_data s = d \<and> d_path s = p | ListObj s \<Rightarrow> False)
      | RList xs \<Rightarrow> (case ob of ListObj s \<Rightarrow> l_data s = xs \<and> l_path s = p | DictObj s \<Rightarrow> False)
      | Scalar s \<Rightarrow> False)"

definition obj_ok :: "heap \<Rightarrow> addr \<Rightarrow> bool" where
  "obj_ok h a =
     (case h ! a of
        DictObj s \<Rightarrow>
          (\<forall>(k, c) \<in> set (d_children s). a < c \<and> c < length h \<and>
             (case subscript (d_data s) k of
                Inr v \<Rightarrow> node_over (h ! c) v (td_child_path s k)
              | Inl e \<Rightarrow> False))
      | ListObj s \<Rightarrow>
          (\<forall>(i, c) \<in> set (l_children s). a < c \<and> c < length h \<and>
             (case list_subscript (l_data s) i of
                Inr v \<Rightarrow> node_over (h ! c) v (tl_child_path s i)
              | Inl e \<Rightarrow> False)))"

definition store_ok :: "heap \<Rightarrow> bool" where
  "store_ok h = (\<forall>a < length h. obj_ok h a)"

text \<open>Two objects with the same class, data, path and children.\<close>

definition same_shape :: "obj \<Rightarrow> obj \<Rightarrow> bool" where
  "same_shape ob ob' =
     (case ob of
        DictObj s \<Rightarrow> (case ob' of DictObj s' \<Rightarrow> d_data s' = d_data s \<and> d_path s' = d_path s \<and> d_children s' = d_children s | ListObj s' \<Rightarrow> False)
      | ListObj s \<Rightarrow> ob' = ob)"

text \<open>
  \<open>wrapped h a key v w\<close>: in the store \<open>h\<close>, \<open>w\<close> is what the wrapping rule answers for
  the value \<open>v\<close> under \<open>key\<close> of the dict node \<open>a\<close>: the value itself when it is a
  scalar, else a reference to the child cached under \<open>key\<close>, a tracked node over \<open>v\<close>.
  \<open>td_frame\<close> and \<open>tl_frame\<close> say what a call on the receiver \<open>a\<close> leaves alone.
\<close>

definition td_frame :: "heap \<Rightarrow> heap \<Rightarrow> addr \<Rightarrow> bool" where
  "td_frame h h' a =
     (length h \<le> length h' \<and> is_dict h' a \<and>
      d_data (dict_at h' a) = d_data (dict_at h a) \<and>
      d_path (dict_at h' a) = d_path (dict_at h a) \<and>
      d_accessed (dict_at h' a) = d_accessed (dict_at h a) \<and>
      (\<forall>k c. map_of (d_children (dict_at h a)) k = Some c \<longrightarrow>
             map_of (d_children (dict_at h' a)) k = Some c) \<and>
      (\<forall>b < length h. b \<noteq> a \<longrightarrow> h' ! b = h ! b))"

definition wrapped :: "heap \<Rightarrow> addr \<Rightarrow> string \<Rightarrow> raw \<Rightarrow> val \<Rightarrow> bool" where
  "wrapped h a key v w =
     (case v of
        Scalar s \<Rightarrow> w = Plain v
      | _ \<Rightarrow>
          (case w of
             Ref c \<Rightarrow>
               map_of (d_children (dict_at h a)) key = Some c \<and> c < length h \<and>
               node_over (h ! c) v (td_child_path (dict_at h a) key)
           | Plain x \<Rightarrow> False))"

definition tl_frame :: "heap \<Rightarrow> heap \<Rightarrow> addr \<Rightarrow> bool" where
  "tl_frame h h' a =
     (length h \<le> length h' \<and> is_list h' a \<and>
      l_data (list_at h' a) = l_data (list_at h a) \<and>
      l_path (list_at h' a) = l_path (list_at h a) \<and>
      (\<forall>i c. map_of (l_children (list_at h a)) i = Some c \<longrightarrow>
             map_of (l_children (list_at h' a)) i = Some c) \<and>
      (\<forall>b < length h. b \<noteq> a \<longrightarrow> h' ! b = h ! b))"

definition ex_config :: "(string \<times> raw) list" where
  "ex_config = [(''a'', Scalar (SInt 1)), (''s'', RDict [(''x'', Scalar (SInt 1)), (''y'', Scalar (SInt 2))])]"

definition ex_store :: heap where
  "ex_store = [DictObj (TrackedDict ex_config [])]"

definition ex_marked :: heap where
  "ex_marked = snd (td_getitem ex_store 0 ''s'')"

definition tl_wrapped :: "heap \<Rightarrow> addr \<Rightarrow> int \<Rightarrow> raw \<Rightarrow> val \<Rightarrow> bool" where
  "tl_wrapped h a index v w =
     (case v of
        Scalar s \<Rightarrow> w = Plain v
      | _ \<Rightarrow>
          (case w of
             Ref c \<Rightarrow>
               map_of (l_children (list_at h a)) index = Some c \<and> c < length h \<and>
               node_over (h ! c) v (tl_child_path (list_at h a) index)
           | Plain x \<Rightarrow> False))"

definition ex_nested :: "(string \<times> raw) list" where
  "ex_nested = [(''a'', RDict [(''b'', RList [RDict [(''c'', Scalar (SInt 1)), (''d'', Scalar (SInt 2))]])])]"

definition ex_deep :: heap where
  "ex_deep =
     snd (td_getitem (snd (tl_getitem (snd (td_getitem (snd (td_getitem
       [DictObj (TrackedDict ex_nested [])] 0 ''a'')) 1 ''b'')) 2 0)) 3 ''c'')"


definition spec_emit :: "heap \<Rightarrow> tracked_dict \<Rightarrow> string \<Rightarrow> string list" where
  "spec_emit h self key =
     (if key \<notin> d_accessed self then [td_child_path self key]
      else (case map_of (d_children self) key of
              Some c \<Rightarrow> (case unaccessed h c of Some ps \<Rightarrow> ps | None \<Rightarrow> [])
            | None \<Rightarrow> []))"

definition spec_unaccessed :: "heap \<Rightarrow> tracked_dict \<Rightarrow> string list" where
  "spec_unaccessed h self = sort (concat (map (spec_emit h self) (dict_keys (d_data self))))"

definition emit_with :: "(addr \<Rightarrow> string list option) \<Rightarrow> tracked_dict \<Rightarrow> string \<Rightarrow> string list" where
  "emit_with sub self key =
     (if key \<notin> d_accessed self then [td_child_path self key]
      else (case map_of (d_children self) key of
              Some c \<Rightarrow> (case sub c of Some ps \<Rightarrow> ps | None \<Rightarrow> [])
            | None \<Rightarrow> []))"

definition sub_list :: "(addr \<Rightarrow> string list option) \<Rightarrow> addr \<Rightarrow> string list" where
  "sub_list sub c = (case sub c of Some ps \<Rightarrow> ps | None \<Rightarrow> [])"

definition td_evolves :: "heap \<Rightarrow> heap \<Rightarrow> addr \<Rightarrow> bool" where
  "td_evolves h h' a =
     (length h \<le> length h' \<and> is_dict h' a \<and>
      d_data (dict_at h' a) = d_data (dict_at h a) \<and>
      d_path (dict_at h' a) = d_path (dict_at h a) \<and>
      d_accessed (dict_at h a) \<subseteq> d_accessed (dict_at h' a) \<and>
      (\<forall>k c. map_of (d_children (dict_at h a)) k = Some c \<longrightarrow>
             map_of (d_children (dict_at h' a)) k = Some c) \<and>
      set (dict_keys (d_children (dict_at h' a))) \<subseteq>
        set (dict_keys (d_children (dict_at h a))) \<union> d_accessed (dict_at h' a) \<and>
      (\<forall>b < length h. b \<noteq> a \<longrightarrow> h' ! b = h ! b) \<and>
      (\<forall>b. length h \<le> b \<and> b < length h' \<longrightarrow> child_addrs (h' ! b) = []))"

definition cache_inv :: "heap \<Rightarrow> bool" where
  "cache_inv h =
     (\<forall>a < length h.
        case h ! a of
          DictObj s \<Rightarrow> set (dict_keys (d_children s)) \<subseteq> d_accessed s
        | ListObj s \<Rightarrow> True)"

inductive reachable :: "heap \<Rightarrow> bool" where
  root_dict: "reachable [DictObj (TrackedDict dat p)]"
| root_list: "reachable [ListObj (TrackedList xs p)]"
| dict_step: "reachable h \<Longrightarrow> is_dict h a \<Longrightarrow> td_exec h a c = Some (r, h') \<Longrightarrow> reachable h'"
| list_step: "reachable h \<Longrightarrow> is_list h l \<Longrightarrow> tl_exec h l lc = Some (r, h') \<Longrightarrow> reachable h'"

section \<open>Facts about the primitives and the store invariant\<close>

lemma map_of_setitem: "map_of (setitem d k v) k' = (if k' = k then Some v else map_of d k')"
  by (induction d) auto

lemma setitem_fresh: "map_of d k = None \<Longrightarrow> setitem d k v = d @ [(k, v)]"
  by (induction d) (auto split: if_splits)

lemma is_dict_iff: "is_dict h a \<longleftrightarrow> a < length h \<and> h ! a = DictObj (dict_at h a)"
  by (auto simp: is_dict_def dict_at_def split: obj.splits)

lemma is_list_iff: "is_list h a \<longleftrightarrow> a < length h \<and> h ! a = ListObj (list_at h a)"
  by (auto simp: is_list_def list_at_def split: obj.splits)

lemma node_over_same_shape: "same_shape ob ob' \<Longrightarrow> node_over ob' v p = node_over ob v p"
  by (auto simp: same_shape_def node_over_def split: obj.splits raw.splits)

lemma node_over_node_for: "node_for v p = Some ob \<Longrightarrow> node_over ob v p"
  by (auto simp: node_for_def node_over_def TrackedDict_def TrackedList_def split: raw.splits)

lemma store_ok_wf: "store_ok h \<Longrightarrow> wf_heap h"
  unfolding store_ok_def wf_heap_def obj_ok_def child_addrs_def dict_vals_def
  by (fastforce split: obj.splits)

lemma store_ok_same_shape:
  assumes ok: "store_ok h" and a: "a < length h" and sh: "same_shape (h ! a) ob'"
  shows "store_ok (h[a := ob'])"
  unfolding store_ok_def
proof (intro allI impI)
  fix b assume "b < length (h[a := ob'])"
  then have b: "b < length h" by simp
  have no: "node_over (h[a := ob'] ! c) v p = node_over (h ! c) v p" if "c < length h" for c v p
  proof (cases "c = a")
    case True
    then show ?thesis using sh a by (simp add: node_over_same_shape)
  next
    case False
    then show ?thesis by simp
  qed
  from ok b have okb: "obj_ok h b" by (simp add: store_ok_def)
  show "obj_ok (h[a := ob']) b"
  proof (cases "b = a")
    case False
    with okb b show ?thesis
      unfolding obj_ok_def
      by (auto simp: no split: obj.splits sum.splits)
  next
    case True
    with okb a sh show ?thesis
      unfolding obj_ok_def same_shape_def
      by (fastforce simp: no td_child_path_def split: obj.splits sum.splits)
  qed
qed


lemma td_child_path_upd [simp]:
  "td_child_path (s\<lparr>d_children := ch\<rparr>) k = td_child_path s k"
  "td_child_path (s\<lparr>d_accessed := acc\<rparr>) k = td_child_path s k"
  by (simp_all add: td_child_path_def)

lemma tl_child_path_upd [simp]:
  "tl_child_path (s\<lparr>l_children := ch\<rparr>) i = tl_child_path s i"
  by (simp add: tl_child_path_def)

lemma obj_ok_dictD:
  assumes "obj_ok h a" "h ! a = DictObj s" "(k, c) \<in> set (d_children s)"
  shows "a < c \<and> c < length h \<and> (\<exists>v. subscript (d_data s) k = Inr v \<and> node_over (h ! c) v (td_child_path s k))"
proof -
  from assms(1,2) have "\<forall>(k, c) \<in> set (d_children s). a < c \<and> c < length h \<and>
             (case subscript (d_data s) k of
                Inr v \<Rightarrow> node_over (h ! c) v (td_child_path s k)
              | Inl e \<Rightarrow> False)"
    by (simp add: obj_ok_def)
  from bspec[OF this assms(3)] show ?thesis by (auto split: sum.splits)
qed

lemma obj_ok_listD:
  assumes "obj_ok h a" "h ! a = ListObj s" "(i, c) \<in> set (l_children s)"
  shows "a < c \<and> c < length h \<and> (\<exists>v. list_subscript (l_data s) i = Inr v \<and> node_over (h ! c) v (tl_child_path s i))"
proof -
  from assms(1,2) have "\<forall>(i, c) \<in> set (l_children s). a < c \<and> c < length h \<and>
             (case list_subscript (l_data s) i of
                Inr v \<Rightarrow> node_over (h ! c) v (tl_child_path s i)
              | Inl e \<Rightarrow> False)"
    by (simp add: obj_ok_def)
  from bspec[OF this assms(3)] show ?thesis by (auto split: sum.splits)
qed

lemma obj_ok_dictI:
  assumes "h ! a = DictObj s"
    and "\<And>k c. (k, c) \<in> set (d_children s) \<Longrightarrow>
           a < c \<and> c < length h \<and> (\<exists>v. subscript (d_data s) k = Inr v \<and> node_over (h ! c) v (td_child_path s k))"
  shows "obj_ok h a"
  using assms unfolding obj_ok_def by (fastforce split: sum.splits)

lemma obj_ok_listI:
  assumes "h ! a = ListObj s"
    and "\<And>i c. (i, c) \<in> set (l_children s) \<Longrightarrow>
           a < c \<and> c < length h \<and> (\<exists>v. list_subscript (l_data s) i = Inr v \<and> node_over (h ! c) v (tl_child_path s i))"
  shows "obj_ok h a"
  using assms unfolding obj_ok_def by (fastforce split: sum.splits)

lemma obj_ok_frame:
  assumes okb: "obj_ok h b" and b: "b < length h" and len: "length h \<le> length h'"
    and same: "h' ! b = h ! b"
    and no: "\<And>c v p. c < length h \<Longrightarrow> node_over (h' ! c) v p = node_over (h ! c) v p"
  shows "obj_ok h' b"
proof (cases "h ! b")
  case (DictObj s)
  show ?thesis
  proof (rule obj_ok_dictI)
    show "h' ! b = DictObj s" using same DictObj by simp
    fix k c assume "(k, c) \<in> set (d_children s)"
    from obj_ok_dictD[OF okb DictObj this] len no
    show "b < c \<and> c < length h' \<and> (\<exists>v. subscript (d_data s) k = Inr v \<and> node_over (h' ! c) v (td_child_path s k))"
      by auto
  qed
next
  case (ListObj s)
  show ?thesis
  proof (rule obj_ok_listI)
    show "h' ! b = ListObj s" using same ListObj by simp
    fix i c assume "(i, c) \<in> set (l_children s)"
    from obj_ok_listD[OF okb ListObj this] len no
    show "b < c \<and> c < length h' \<and> (\<exists>v. list_subscript (l_data s) i = Inr v \<and> node_over (h' ! c) v (tl_child_path s i))"
      by auto
  qed
qed

lemma store_ok_add_child_dict:
  assumes ok: "store_ok h" and a: "a < length h" and ha: "h ! a = DictObj s"
    and sub: "subscript (d_data s) key = Inr v" and nf: "node_for v (td_child_path s key) = Some ob"
  shows "store_ok ((h @ [ob])[a := DictObj (s\<lparr>d_children := d_children s @ [(key, length h)]\<rparr>)])"
    (is "store_ok ?h'")
  unfolding store_ok_def
proof (intro allI impI)
  fix b assume "b < length ?h'"
  then have b: "b \<le> length h" by simp
  have no: "node_over (?h' ! c) w p = node_over (h ! c) w p" if "c < length h" for c w p
  proof (cases "c = a")
    case True
    then show ?thesis using a ha by (simp add: node_over_def split: raw.splits)
  next
    case False
    then show ?thesis using that by (simp add: nth_append)
  qed
  have ob: "child_addrs ob = []"
    using nf by (auto simp: node_for_def child_addrs_def dict_vals_def TrackedDict_def TrackedList_def split: raw.splits)
  consider "b = length h" | "b = a" | "b < length h" "b \<noteq> a" using b by linarith
  then show "obj_ok ?h' b"
  proof cases
    case 1
    then have "?h' ! b = ob" using a by (simp add: nth_append)
    then show ?thesis using ob
      by (cases ob) (auto simp: obj_ok_def child_addrs_def dict_vals_def)
  next
    case 2
    have oka: "obj_ok h a" using ok a by (simp add: store_ok_def)
    show ?thesis
    proof (rule obj_ok_dictI)
      show "?h' ! b = DictObj (s\<lparr>d_children := d_children s @ [(key, length h)]\<rparr>)"
        using 2 a by simp
      fix k c assume "(k, c) \<in> set (d_children (s\<lparr>d_children := d_children s @ [(key, length h)]\<rparr>))"
      then consider "(k, c) \<in> set (d_children s)" | "k = key" "c = length h" by auto
      then show "b < c \<and> c < length ?h' \<and>
         (\<exists>v. subscript (d_data (s\<lparr>d_children := d_children s @ [(key, length h)]\<rparr>)) k = Inr v \<and>
              node_over (?h' ! c) v (td_child_path (s\<lparr>d_children := d_children s @ [(key, length h)]\<rparr>) k))"
      proof cases
        case 1
        from obj_ok_dictD[OF oka ha 1] 2 show ?thesis
          by (auto simp: nth_append)
      next
        case 2
        have "?h' ! length h = ob" using a by (simp add: nth_append)
        with 2 \<open>b = a\<close> a sub node_over_node_for[OF nf] show ?thesis
          by simp
      qed
    qed
  next
    case 3
    have "obj_ok h b" using ok 3 by (simp add: store_ok_def)
    then show ?thesis
      by (rule obj_ok_frame) (use 3 no in \<open>simp_all add: nth_append\<close>)
  qed
qed

lemma store_ok_add_child_list:
  assumes ok: "store_ok h" and a: "a < length h" and ha: "h ! a = ListObj s"
    and sub: "list_subscript (l_data s) i = Inr v" and nf: "node_for v (tl_child_path s i) = Some ob"
  shows "store_ok ((h @ [ob])[a := ListObj (s\<lparr>l_children := l_children s @ [(i, length h)]\<rparr>)])"
    (is "store_ok ?h'")
  unfolding store_ok_def
proof (intro allI impI)
  fix b assume "b < length ?h'"
  then have b: "b \<le> length h" by simp
  have no: "node_over (?h' ! c) w p = node_over (h ! c) w p" if "c < length h" for c w p
  proof (cases "c = a")
    case True
    then show ?thesis using a ha by (simp add: node_over_def split: raw.splits)
  next
    case False
    then show ?thesis using that by (simp add: nth_append)
  qed
  have ob: "child_addrs ob = []"
    using nf by (auto simp: node_for_def child_addrs_def dict_vals_def TrackedDict_def TrackedList_def split: raw.splits)
  consider "b = length h" | "b = a" | "b < length h" "b \<noteq> a" using b by linarith
  then show "obj_ok ?h' b"
  proof cases
    case 1
    then have "?h' ! b = ob" using a by (simp add: nth_append)
    then show ?thesis using ob
      by (cases ob) (auto simp: obj_ok_def child_addrs_def dict_vals_def)
  next
    case 2
    have oka: "obj_ok h a" using ok a by (simp add: store_ok_def)
    show ?thesis
    proof (rule obj_ok_listI)
      show "?h' ! b = ListObj (s\<lparr>l_children := l_children s @ [(i, length h)]\<rparr>)"
        using 2 a by simp
      fix j c assume "(j, c) \<in> set (l_children (s\<lparr>l_children := l_children s @ [(i, length h)]\<rparr>))"
      then consider "(j, c) \<in> set (l_children s)" | "j = i" "c = length h" by auto
      then show "b < c \<and> c < length ?h' \<and>
         (\<exists>v. list_subscript (l_data (s\<lparr>l_children := l_children s @ [(i, length h)]\<rparr>)) j = Inr v \<and>
              node_over (?h' ! c) v (tl_child_path (s\<lparr>l_children := l_children s @ [(i, length h)]\<rparr>) j))"
      proof cases
        case 1
        from obj_ok_listD[OF oka ha 1] 2 show ?thesis
          by (auto simp: nth_append)
      next
        case 2
        have "?h' ! length h = ob" using a by (simp add: nth_append)
        with 2 \<open>b = a\<close> a sub node_over_node_for[OF nf] show ?thesis
          by simp
      qed
    qed
  next
    case 3
    have "obj_ok h b" using ok 3 by (simp add: store_ok_def)
    then show ?thesis
      by (rule obj_ok_frame) (use 3 no in \<open>simp_all add: nth_append\<close>)
  qed
qed

lemma subscript_simps:
  "map_of d k = Some v \<Longrightarrow> subscript d k = Inr v"
  "map_of d k = None \<Longrightarrow> subscript d k = Inl KeyError"
  by (simp_all add: subscript_def)

lemma subscript_Inr_iff: "subscript d k = Inr v \<longleftrightarrow> map_of d k = Some v"
  by (simp add: subscript_def split: option.splits)

lemma subscript_Inl_iff: "subscript d k = Inl e \<longleftrightarrow> e = KeyError \<and> k \<notin> set (dict_keys d)"
proof (cases "map_of d k")
  case None
  then have "k \<notin> fst ` set d" by (simp add: map_of_eq_None_iff)
  with None show ?thesis by (auto simp: subscript_def dict_keys_def)
next
  case (Some v)
  then have "k \<in> fst ` set d" by (metis map_of_eq_None_iff option.distinct(1))
  with Some show ?thesis by (simp add: subscript_def dict_keys_def)
qed

lemma has_key_iff: "has_key d k \<longleftrightarrow> k \<in> set (dict_keys d)"
  by (simp add: has_key_def dict_keys_def map_of_eq_None_iff)

lemma subscript_key: "k \<in> set (dict_keys d) \<Longrightarrow> \<exists>v. subscript d k = Inr v"
  by (cases "subscript d k") (auto simp: subscript_Inl_iff)

lemma td_wrap_eq:
  assumes "is_dict h a"
  shows "td_wrap h a key v =
     (case node_for v (td_child_path (dict_at h a) key) of
        None \<Rightarrow> (Inr (Plain v), h)
      | Some ob \<Rightarrow>
          (case map_of (d_children (dict_at h a)) key of
             Some c \<Rightarrow> (Inr (Ref c), h)
           | None \<Rightarrow>
               (Inr (Ref (length h)),
                (h @ [ob])[a := DictObj ((dict_at h a)\<lparr>d_children := d_children (dict_at h a) @ [(key, length h)]\<rparr>)])))"
proof -
  from assms have a: "a < length h" by (simp add: is_dict_def)
  show ?thesis
  proof (cases "map_of (d_children (dict_at h a)) key")
    case None
    then show ?thesis using a
      by (cases v)
         (simp_all add: td_wrap_def node_for_def has_key_def alloc_def upd_dict_def dict_at_def
            nth_append map_of_setitem subscript_def setitem_fresh map_add_def)
  next
    case (Some c)
    then show ?thesis
      by (cases v) (simp_all add: td_wrap_def node_for_def has_key_def subscript_def)
  qed
qed

lemma tl_wrap_eq:
  assumes "is_list h a"
  shows "tl_wrap h a i v =
     (case node_for v (tl_child_path (list_at h a) i) of
        None \<Rightarrow> (Inr (Plain v), h)
      | Some ob \<Rightarrow>
          (case map_of (l_children (list_at h a)) i of
             Some c \<Rightarrow> (Inr (Ref c), h)
           | None \<Rightarrow>
               (Inr (Ref (length h)),
                (h @ [ob])[a := ListObj ((list_at h a)\<lparr>l_children := l_children (list_at h a) @ [(i, length h)]\<rparr>)])))"
proof -
  from assms have a: "a < length h" by (simp add: is_list_def)
  show ?thesis
  proof (cases "map_of (l_children (list_at h a)) i")
    case None
    then show ?thesis using a
      by (cases v)
         (simp_all add: tl_wrap_def node_for_def has_key_def alloc_def upd_list_def list_at_def
            nth_append map_of_setitem subscript_def setitem_fresh map_add_def)
  next
    case (Some c)
    then show ?thesis
      by (cases v) (simp_all add: tl_wrap_def node_for_def has_key_def subscript_def)
  qed
qed

lemma td_frame_refl: "is_dict h a \<Longrightarrow> td_frame h h a"
  by (simp add: td_frame_def)

lemma td_frame_trans: "td_frame h h1 a \<Longrightarrow> td_frame h1 h2 a \<Longrightarrow> td_frame h h2 a"
  by (auto simp: td_frame_def)

lemma td_add_accessed_eq:
  "is_dict h a \<Longrightarrow> td_add_accessed h a ks = h[a := DictObj ((dict_at h a)\<lparr>d_accessed := d_accessed (dict_at h a) \<union> ks\<rparr>)]"
  by (simp add: td_add_accessed_def upd_dict_def)

lemma td_add_accessed_facts:
  assumes "is_dict h a"
  shows "is_dict (td_add_accessed h a ks) a"
    and "dict_at (td_add_accessed h a ks) a = (dict_at h a)\<lparr>d_accessed := d_accessed (dict_at h a) \<union> ks\<rparr>"
    and "length (td_add_accessed h a ks) = length h"
    and "b \<noteq> a \<Longrightarrow> td_add_accessed h a ks ! b = h ! b"
  using assms by (simp_all add: td_add_accessed_def upd_dict_def is_dict_def dict_at_def)

lemma store_ok_add_accessed:
  assumes "store_ok h" "is_dict h a"
  shows "store_ok (td_add_accessed h a ks)"
proof -
  from assms(2) have a: "a < length h" and ha: "h ! a = DictObj (dict_at h a)"
    by (simp_all add: is_dict_iff)
  have "same_shape (h ! a) (DictObj ((dict_at h a)\<lparr>d_accessed := d_accessed (dict_at h a) \<union> ks\<rparr>))"
    by (subst ha) (simp add: same_shape_def)
  from store_ok_same_shape[OF assms(1) a this] show ?thesis
    by (simp add: td_add_accessed_eq[OF assms(2)])
qed

text \<open>What one call of \<open>_wrap\<close> on a key of the raw data does.\<close>

lemma node_for_childless: "node_for v p = Some ob \<Longrightarrow> child_addrs ob = []"
  by (auto simp: node_for_def child_addrs_def dict_vals_def TrackedDict_def TrackedList_def split: raw.splits)

lemma td_wrap_effect:
  assumes d: "is_dict h a"
    and sub: "subscript (d_data (dict_at h a)) key = Inr v"
  shows "\<exists>w h'. td_wrap h a key v = (Inr w, h') \<and> td_frame h h' a \<and>
           set (dict_keys (d_children (dict_at h' a))) \<subseteq> insert key (set (dict_keys (d_children (dict_at h a)))) \<and>
           (\<forall>b. length h \<le> b \<and> b < length h' \<longrightarrow> child_addrs (h' ! b) = []) \<and>
           (store_ok h \<longrightarrow> store_ok h' \<and> wrapped h' a key v w)"
proof -
  let ?s = "dict_at h a"
  from d have a: "a < length h" and ha: "h ! a = DictObj ?s" by (simp_all add: is_dict_iff)
  show ?thesis
  proof (cases "node_for v (td_child_path ?s key)")
    case None
    then have "\<exists>x. v = Scalar x" by (auto simp: node_for_def split: raw.splits)
    with None d show ?thesis
      by (auto simp: td_wrap_eq[OF d] td_frame_refl wrapped_def)
  next
    case (Some ob)
    then have nsc: "\<And>x. v \<noteq> Scalar x" by (auto simp: node_for_def)
    show ?thesis
    proof (cases "map_of (d_children ?s) key")
      case (Some c)
      have eq: "td_wrap h a key v = (Inr (Ref c), h)"
        using Some \<open>node_for v (td_child_path ?s key) = Some ob\<close> by (simp add: td_wrap_eq[OF d])
      have "wrapped h a key v (Ref c)" if ok: "store_ok h"
      proof -
        from Some have "(key, c) \<in> set (d_children ?s)" by (rule map_of_SomeD)
        with ok a ha have "a < c \<and> c < length h \<and> (\<exists>v'. subscript (d_data ?s) key = Inr v' \<and> node_over (h ! c) v' (td_child_path ?s key))"
          by (intro obj_ok_dictD) (auto simp: store_ok_def)
        with sub have "c < length h" "node_over (h ! c) v (td_child_path ?s key)" by auto
        with Some nsc show ?thesis
          by (cases v) (auto simp: wrapped_def)
      qed
      with eq d show ?thesis by (auto simp: td_frame_refl)
    next
      case None
      let ?h' = "(h @ [ob])[a := DictObj (?s\<lparr>d_children := d_children ?s @ [(key, length h)]\<rparr>)]"
      have eq: "td_wrap h a key v = (Inr (Ref (length h)), ?h')"
        using None \<open>node_for v (td_child_path ?s key) = Some ob\<close> by (simp add: td_wrap_eq[OF d])
      have ok': "store_ok ?h'" if ok: "store_ok h"
        using store_ok_add_child_dict[OF ok a ha sub \<open>node_for v (td_child_path ?s key) = Some ob\<close>] .
      have da: "dict_at ?h' a = ?s\<lparr>d_children := d_children ?s @ [(key, length h)]\<rparr>"
        using a by (simp add: dict_at_def)
      have fr: "td_frame h ?h' a"
        using a None by (auto simp: td_frame_def is_dict_def da nth_append map_add_def split: option.splits)
      have new: "?h' ! length h = ob" using a by (simp add: nth_append)
      have wr: "wrapped ?h' a key v (Ref (length h))"
        using nsc None node_over_node_for[OF \<open>node_for v (td_child_path ?s key) = Some ob\<close>]
        by (cases v) (simp_all add: wrapped_def da new map_add_def node_over_def)
      have ks: "set (dict_keys (d_children (dict_at ?h' a))) \<subseteq> insert key (set (dict_keys (d_children ?s)))"
        by (auto simp: da dict_keys_def)
      have ob: "child_addrs ob = []"
        using \<open>node_for v (td_child_path ?s key) = Some ob\<close> by (rule node_for_childless)
      have fresh: "\<forall>b. length h \<le> b \<and> b < length ?h' \<longrightarrow> child_addrs (?h' ! b) = []"
      proof (intro allI impI)
        fix b assume "length h \<le> b \<and> b < length ?h'"
        then have "b = length h" by simp
        with new ob show "child_addrs (?h' ! b) = []" by simp
      qed
      from eq ok' fr wr ks fresh show ?thesis by blast
    qed
  qed
qed

lemma tl_frame_refl: "is_list h a \<Longrightarrow> tl_frame h h a"
  by (simp add: tl_frame_def)

lemma tl_frame_trans: "tl_frame h h1 a \<Longrightarrow> tl_frame h1 h2 a \<Longrightarrow> tl_frame h h2 a"
  by (auto simp: tl_frame_def)

lemma tl_wrap_effect:
  assumes d: "is_list h a"
    and sub: "list_subscript (l_data (list_at h a)) i = Inr v"
  shows "\<exists>w h'. tl_wrap h a i v = (Inr w, h') \<and> tl_frame h h' a \<and>
           (\<forall>b. length h \<le> b \<and> b < length h' \<longrightarrow> child_addrs (h' ! b) = []) \<and>
           (store_ok h \<longrightarrow> store_ok h')"
proof -
  let ?s = "list_at h a"
  from d have a: "a < length h" and ha: "h ! a = ListObj ?s" by (simp_all add: is_list_iff)
  show ?thesis
  proof (cases "node_for v (tl_child_path ?s i)")
    case None
    with d show ?thesis
      by (auto simp: tl_wrap_eq[OF d] tl_frame_refl)
  next
    case (Some ob)
    show ?thesis
    proof (cases "map_of (l_children ?s) i")
      case (Some c)
      have eq: "tl_wrap h a i v = (Inr (Ref c), h)"
        using Some \<open>node_for v (tl_child_path ?s i) = Some ob\<close> by (simp add: tl_wrap_eq[OF d])
      with d show ?thesis by (auto simp: tl_frame_refl)
    next
      case None
      let ?h' = "(h @ [ob])[a := ListObj (?s\<lparr>l_children := l_children ?s @ [(i, length h)]\<rparr>)]"
      have eq: "tl_wrap h a i v = (Inr (Ref (length h)), ?h')"
        using None \<open>node_for v (tl_child_path ?s i) = Some ob\<close> by (simp add: tl_wrap_eq[OF d])
      have ok': "store_ok ?h'" if ok: "store_ok h"
        using store_ok_add_child_list[OF ok a ha sub \<open>node_for v (tl_child_path ?s i) = Some ob\<close>] .
      have da: "list_at ?h' a = ?s\<lparr>l_children := l_children ?s @ [(i, length h)]\<rparr>"
        using a by (simp add: list_at_def)
      have fr: "tl_frame h ?h' a"
        using a None by (auto simp: tl_frame_def is_list_def da nth_append map_add_def split: option.splits)
      have new: "?h' ! length h = ob" using a by (simp add: nth_append)
      have ob: "child_addrs ob = []"
        using \<open>node_for v (tl_child_path ?s i) = Some ob\<close> by (rule node_for_childless)
      have fresh: "\<forall>b. length h \<le> b \<and> b < length ?h' \<longrightarrow> child_addrs (?h' ! b) = []"
      proof (intro allI impI)
        fix b assume "length h \<le> b \<and> b < length ?h'"
        then have "b = length h" by simp
        with new ob show "child_addrs (?h' ! b) = []" by simp
      qed
      from eq ok' fr fresh show ?thesis by blast
    qed
  qed
qed

lemma wrapped_stable:
  assumes ok: "store_ok h" and d: "is_dict h a" and w: "wrapped h a k v w" and fr: "td_frame h h' a"
  shows "wrapped h' a k v w"
proof (cases "\<exists>x. v = Scalar x")
  case True
  with w show ?thesis by (auto simp: wrapped_def)
next
  case False
  with w obtain c where c: "w = Ref c" "map_of (d_children (dict_at h a)) k = Some c" "c < length h"
    "node_over (h ! c) v (td_child_path (dict_at h a) k)"
    by (cases v; cases w) (auto simp: wrapped_def)
  from d have a: "a < length h" and ha: "h ! a = DictObj (dict_at h a)" by (simp_all add: is_dict_iff)
  from c(2) have "(k, c) \<in> set (d_children (dict_at h a))" by (rule map_of_SomeD)
  with ok a ha have "a < c" using obj_ok_dictD[of h a "dict_at h a" k c] by (auto simp: store_ok_def)
  with fr c have "h' ! c = h ! c" "map_of (d_children (dict_at h' a)) k = Some c" "c < length h'"
    "td_child_path (dict_at h' a) k = td_child_path (dict_at h a) k"
    by (auto simp: td_frame_def td_child_path_def)
  with c False show ?thesis by (cases v) (auto simp: wrapped_def)
qed

lemma td_items_loop_effect:
  assumes "is_dict h a" and "set ks \<subseteq> set (dict_keys (d_data (dict_at h a)))"
  shows "\<exists>out' h'. td_items_loop h a ks out = (Inr (out @ out'), h') \<and> td_frame h h' a \<and>
           map fst out' = ks \<and>
           set (dict_keys (d_children (dict_at h' a))) \<subseteq> set ks \<union> set (dict_keys (d_children (dict_at h a))) \<and>
           (\<forall>b. length h \<le> b \<and> b < length h' \<longrightarrow> child_addrs (h' ! b) = []) \<and>
           (store_ok h \<longrightarrow> store_ok h' \<and>
              (\<forall>(k, w) \<in> set out'. \<exists>v. subscript (d_data (dict_at h a)) k = Inr v \<and> wrapped h' a k v w))"
  using assms
proof (induction ks arbitrary: h out)
  case Nil
  then show ?case by (auto simp: td_frame_refl)
next
  case (Cons key ks)
  let ?dat = "d_data (dict_at h a)"
  from Cons.prems have "key \<in> set (dict_keys ?dat)" by simp
  from subscript_key[OF this] obtain v where sub: "subscript ?dat key = Inr v" ..
  from td_wrap_effect[OF Cons.prems(1) sub] obtain w h1 where
    w: "td_wrap h a key v = (Inr w, h1)" and fr1: "td_frame h h1 a"
    and ks1: "set (dict_keys (d_children (dict_at h1 a))) \<subseteq> insert key (set (dict_keys (d_children (dict_at h a))))"
    and fresh1: "\<forall>b. length h \<le> b \<and> b < length h1 \<longrightarrow> child_addrs (h1 ! b) = []"
    and ok1: "store_ok h \<longrightarrow> store_ok h1 \<and> wrapped h1 a key v w"
    by blast
  from fr1 have d1: "is_dict h1 a" and dat1: "d_data (dict_at h1 a) = ?dat"
    by (simp_all add: td_frame_def)
  from Cons.prems dat1 have sub1: "set ks \<subseteq> set (dict_keys (d_data (dict_at h1 a)))" by simp
  from Cons.IH[OF d1 sub1, of "out @ [(key, w)]"] obtain out2 h' where
    l: "td_items_loop h1 a ks (out @ [(key, w)]) = (Inr ((out @ [(key, w)]) @ out2), h')"
    and fr2: "td_frame h1 h' a" and m2: "map fst out2 = ks"
    and ks2: "set (dict_keys (d_children (dict_at h' a))) \<subseteq> set ks \<union> set (dict_keys (d_children (dict_at h1 a)))"
    and fresh2: "\<forall>b. length h1 \<le> b \<and> b < length h' \<longrightarrow> child_addrs (h' ! b) = []"
    and ok2: "store_ok h1 \<longrightarrow> store_ok h' \<and>
              (\<forall>(k, w) \<in> set out2. \<exists>v. subscript (d_data (dict_at h1 a)) k = Inr v \<and> wrapped h' a k v w)"
    by blast
  have eq: "td_items_loop h a (key # ks) out = (Inr (out @ ((key, w) # out2)), h')"
    using sub w l by simp
  have fr: "td_frame h h' a" using fr1 fr2 by (rule td_frame_trans)
  have ks': "set (dict_keys (d_children (dict_at h' a))) \<subseteq> set (key # ks) \<union> set (dict_keys (d_children (dict_at h a)))"
    using ks1 ks2 by auto
  have fresh: "\<forall>b. length h \<le> b \<and> b < length h' \<longrightarrow> child_addrs (h' ! b) = []"
  proof (intro allI impI)
    fix b assume b: "length h \<le> b \<and> b < length h'"
    show "child_addrs (h' ! b) = []"
    proof (cases "b < length h1")
      case True
      from Cons.prems(1) b have "b \<noteq> a" by (auto simp: is_dict_def)
      with fr2 True have "h' ! b = h1 ! b" by (simp add: td_frame_def)
      with fresh1 b True show ?thesis by simp
    next
      case False
      with fresh2 b show ?thesis by simp
    qed
  qed
  have ok: "store_ok h' \<and>
              (\<forall>(k, w) \<in> set ((key, w) # out2). \<exists>v. subscript ?dat k = Inr v \<and> wrapped h' a k v w)"
    if "store_ok h"
  proof -
    from that ok1 have s1: "store_ok h1" and w1: "wrapped h1 a key v w" by simp_all
    from s1 ok2 dat1 have s2: "store_ok h'"
      and w2: "\<forall>(k, w) \<in> set out2. \<exists>v. subscript ?dat k = Inr v \<and> wrapped h' a k v w"
      by simp_all
    from wrapped_stable[OF s1 d1 w1 fr2] sub s2 w2 show ?thesis by auto
  qed
  from eq fr m2 ks' fresh ok show ?case by (intro exI[of _ "(key, w) # out2"] exI[of _ h']) simp
qed

lemma td_values_loop_items:
  "td_values_loop h a ks (map snd out) =
     (case td_items_loop h a ks out of (r, h') \<Rightarrow> (map_sum id (map snd) r, h'))"
proof (induction ks arbitrary: h out)
  case Nil
  show ?case by simp
next
  case (Cons key ks)
  show ?case
  proof (cases "subscript (d_data (dict_at h a)) key")
    case (Inl e)
    then show ?thesis by simp
  next
    case (Inr v)
    obtain r h1 where w: "td_wrap h a key v = (r, h1)" by (cases "td_wrap h a key v")
    show ?thesis
    proof (cases r)
      case (Inl e)
      with Inr w show ?thesis by simp
    next
      case (Inr x)
      with \<open>subscript (d_data (dict_at h a)) key = Inr v\<close> w Cons.IH[of h1 "out @ [(key, x)]"]
      show ?thesis by simp
    qed
  qed
qed

lemma list_subscript_nat: "i < length xs \<Longrightarrow> list_subscript xs (int i) = Inr (xs ! i)"
  by (simp add: list_subscript_def)

lemma tl_iter_loop_effect:
  assumes "is_list h a" and "\<forall>i \<in> set js. i < length (l_data (list_at h a))"
  shows "\<exists>vs h'. tl_iter_loop h a js out = (Inr vs, h') \<and> tl_frame h h' a \<and>
           (\<forall>b. length h \<le> b \<and> b < length h' \<longrightarrow> child_addrs (h' ! b) = []) \<and>
           (store_ok h \<longrightarrow> store_ok h')"
  using assms
proof (induction js arbitrary: h out)
  case Nil
  then show ?case by (auto simp: tl_frame_refl)
next
  case (Cons j js)
  let ?dat = "l_data (list_at h a)"
  from Cons.prems have sub: "list_subscript ?dat (int j) = Inr (?dat ! j)"
    by (simp add: list_subscript_nat)
  from tl_wrap_effect[OF Cons.prems(1) sub] obtain w h1 where
    w: "tl_wrap h a (int j) (?dat ! j) = (Inr w, h1)" and fr1: "tl_frame h h1 a"
    and fresh1: "\<forall>b. length h \<le> b \<and> b < length h1 \<longrightarrow> child_addrs (h1 ! b) = []"
    and ok1: "store_ok h \<longrightarrow> store_ok h1"
    by blast
  from fr1 have d1: "is_list h1 a" and dat1: "l_data (list_at h1 a) = ?dat"
    by (simp_all add: tl_frame_def)
  from Cons.prems dat1 have sub1: "\<forall>i \<in> set js. i < length (l_data (list_at h1 a))" by simp
  from Cons.IH[OF d1 sub1, of "out @ [w]"] obtain vs h' where
    l: "tl_iter_loop h1 a js (out @ [w]) = (Inr vs, h')"
    and fr2: "tl_frame h1 h' a"
    and fresh2: "\<forall>b. length h1 \<le> b \<and> b < length h' \<longrightarrow> child_addrs (h' ! b) = []"
    and ok2: "store_ok h1 \<longrightarrow> store_ok h'"
    by blast
  have eq: "tl_iter_loop h a (j # js) out = (Inr vs, h')"
    using sub w l by simp
  have fr: "tl_frame h h' a" using fr1 fr2 by (rule tl_frame_trans)
  have fresh: "\<forall>b. length h \<le> b \<and> b < length h' \<longrightarrow> child_addrs (h' ! b) = []"
  proof (intro allI impI)
    fix b assume b: "length h \<le> b \<and> b < length h'"
    show "child_addrs (h' ! b) = []"
    proof (cases "b < length h1")
      case True
      from Cons.prems(1) b have "b \<noteq> a" by (auto simp: is_list_def)
      with fr2 True have "h' ! b = h1 ! b" by (simp add: tl_frame_def)
      with fresh1 b True show ?thesis by simp
    next
      case False
      with fresh2 b show ?thesis by simp
    qed
  qed
  from eq fr fresh ok1 ok2 show ?case by blast
qed

lemmas ex_defs = ex_store_def ex_config_def TrackedDict_def TrackedList_def

lemmas op_defs = td_getitem_def td_get_def td_wrap_def tl_getitem_def tl_wrap_def
  td_add_accessed_def td_mark_accessed_def td_mark_all_accessed_def td_accessed_keys_def
  upd_dict_def upd_list_def dict_at_def list_at_def alloc_def has_key_def subscript_def
  list_subscript_def dict_keys_def dict_vals_def td_child_path_def tl_child_path_def
  is_dict_def is_list_def

lemma store_ok_ex_store: "store_ok ex_store"
  by (simp add: store_ok_def obj_ok_def ex_defs)

lemma td_get_eq:
  assumes d: "is_dict h a"
  shows "td_get h a k dflt =
     (case map_of (d_data (dict_at h a)) k of
        None \<Rightarrow> (Inr dflt, td_add_accessed h a {k})
      | Some v \<Rightarrow> td_wrap (td_add_accessed h a {k}) a k v)"
  using td_add_accessed_facts(2)[OF d, of "{k}"]
  by (simp add: td_get_def has_key_def subscript_def Let_def split: option.splits)

lemma td_getitem_eq:
  assumes d: "is_dict h a"
  shows "td_getitem h a k =
     (case map_of (d_data (dict_at h a)) k of
        None \<Rightarrow> (Inl KeyError, td_add_accessed h a {k})
      | Some v \<Rightarrow> td_wrap (td_add_accessed h a {k}) a k v)"
  using td_add_accessed_facts(2)[OF d, of "{k}"]
  by (simp add: td_getitem_def subscript_def Let_def split: option.splits)

text \<open>
  C3. \<open>get(k, d)\<close> adds \<open>k\<close> to the accessed set whether or not \<open>k\<close> is a key of the raw
  mapping. When \<open>k\<close> is present the call returns the wrapped value of \<open>k\<close>; when it is
  absent it returns \<open>d\<close> itself, not wrapped.
\<close>

theorem get_marks_and_wraps_or_defaults:
  assumes ok: "store_ok h" and d: "is_dict h a"
  shows "d_accessed (dict_at (snd (td_get h a k dflt)) a) = insert k (d_accessed (dict_at h a)) \<and>
         (case map_of (d_data (dict_at h a)) k of
            None \<Rightarrow> fst (td_get h a k dflt) = Inr dflt
          | Some v \<Rightarrow> \<exists>w. fst (td_get h a k dflt) = Inr w \<and> wrapped (snd (td_get h a k dflt)) a k v w)"
proof -
  let ?h1 = "td_add_accessed h a {k}"
  have d1: "is_dict ?h1 a" and s1: "dict_at ?h1 a = (dict_at h a)\<lparr>d_accessed := d_accessed (dict_at h a) \<union> {k}\<rparr>"
    using td_add_accessed_facts[OF d] by simp_all
  have ok1: "store_ok ?h1" using store_ok_add_accessed[OF ok d] .
  show ?thesis
  proof (cases "map_of (d_data (dict_at h a)) k")
    case None
    then show ?thesis by (simp add: td_get_eq[OF d] s1)
  next
    case (Some v)
    then have sub: "subscript (d_data (dict_at ?h1 a)) k = Inr v" by (simp add: s1 subscript_def)
    from td_wrap_effect[OF d1 sub] ok1 obtain w h' where
      w: "td_wrap ?h1 a k v = (Inr w, h')" and fr: "td_frame ?h1 h' a" and wr: "wrapped h' a k v w"
      by blast
    from fr have "d_accessed (dict_at h' a) = d_accessed (dict_at ?h1 a)" by (simp add: td_frame_def)
    with Some w wr show ?thesis by (simp add: td_get_eq[OF d] s1)
  qed
qed

theorem get_marks_and_wraps_or_defaults_witness:
  "store_ok ex_store \<and> is_dict ex_store 0 \<and>
   d_accessed (dict_at (snd (td_get ex_store 0 ''z'' (Plain (Scalar (SInt 42))))) 0) = {''z''} \<and>
   fst (td_get ex_store 0 ''z'' (Plain (Scalar (SInt 42)))) = Inr (Plain (Scalar (SInt 42)))"
proof -
  have d: "is_dict ex_store 0" by (simp add: is_dict_def ex_defs)
  from get_marks_and_wraps_or_defaults[OF store_ok_ex_store d, of "''z''" "Plain (Scalar (SInt 42))"]
  show ?thesis using store_ok_ex_store d by (simp add: ex_defs dict_at_def)
qed

text \<open>
  C9. An indexed lookup \<open>M[k]\<close> of a key absent from the raw mapping raises \<open>KeyError\<close>,
  and the store it leaves behind has \<open>k\<close> in the accessed set of \<open>M\<close>, although \<open>k\<close> is
  no key of the raw mapping.
\<close>

theorem getitem_miss_marks_before_raising:
  assumes d: "is_dict h a" and miss: "k \<notin> set (dict_keys (d_data (dict_at h a)))"
  shows "fst (td_getitem h a k) = Inl KeyError \<and>
         k \<in> td_accessed_keys (snd (td_getitem h a k)) a \<and>
         k \<notin> set (dict_keys (d_data (dict_at (snd (td_getitem h a k)) a)))"
proof -
  from miss have "map_of (d_data (dict_at h a)) k = None"
    by (simp add: dict_keys_def map_of_eq_None_iff)
  then show ?thesis using miss td_add_accessed_facts(2)[OF d, of "{k}"]
    by (simp add: td_getitem_eq[OF d] td_accessed_keys_def)
qed

theorem getitem_miss_marks_before_raising_witness:
  "is_dict ex_store 0 \<and> ''z'' \<notin> set (dict_keys (d_data (dict_at ex_store 0))) \<and>
   fst (td_getitem ex_store 0 ''z'') = Inl KeyError \<and>
   td_accessed_keys (snd (td_getitem ex_store 0 ''z'')) 0 = {''z''}"
proof -
  have d: "is_dict ex_store 0" by (simp add: is_dict_def ex_defs)
  have m: "''z'' \<notin> set (dict_keys (d_data (dict_at ex_store 0)))"
    by (simp add: ex_defs dict_at_def dict_keys_def)
  from getitem_miss_marks_before_raising[OF d m] d m
  show ?thesis by (simp add: ex_defs op_defs)
qed

text \<open>
  C8. Equality is structural. A tracked map compared with a plain mapping, and a tracked
  sequence compared with a plain sequence, is equal exactly when the plain structure equals
  the raw data; compared with a tracked node of the same class, exactly when the two raw
  structures are equal. The answer is a function of the raw data alone: two receivers with
  the same raw data give the same answer, whatever their accessed sets, caches and paths.
\<close>

theorem eq_is_structural:
  "td_eq h a (Plain (RDict e)) = Some (py_eq (RDict (d_data (dict_at h a))) (RDict e)) \<and>
   tl_eq h a (Plain (RList ys)) = Some (py_eq (RList (l_data (list_at h a))) (RList ys)) \<and>
   (is_dict h b \<longrightarrow>
      td_eq h a (Ref b) = Some (py_eq (RDict (d_data (dict_at h a))) (RDict (d_data (dict_at h b))))) \<and>
   (is_list h b \<longrightarrow>
      tl_eq h a (Ref b) = Some (py_eq (RList (l_data (list_at h a))) (RList (l_data (list_at h b))))) \<and>
   (d_data (dict_at h' a') = d_data (dict_at h a) \<longrightarrow>
      td_eq h' a' (Plain x) = td_eq h a (Plain x)) \<and>
   (l_data (list_at h' a') = l_data (list_at h a) \<longrightarrow>
      tl_eq h' a' (Plain x) = tl_eq h a (Plain x)) \<and>
   (is_dict h b \<and> is_dict h' b' \<and> d_data (dict_at h' a') = d_data (dict_at h a) \<and>
    d_data (dict_at h' b') = d_data (dict_at h b) \<longrightarrow>
      td_eq h' a' (Ref b') = td_eq h a (Ref b)) \<and>
   (is_list h b \<and> is_list h' b' \<and> l_data (list_at h' a') = l_data (list_at h a) \<and>
    l_data (list_at h' b') = l_data (list_at h b) \<longrightarrow>
      tl_eq h' a' (Ref b') = tl_eq h a (Ref b))"
  by (auto simp: td_eq_def tl_eq_def is_dict_def is_list_def dict_at_def list_at_def
           split: obj.splits val.splits raw.splits)

theorem eq_is_structural_witness:
  "is_dict ex_marked 1 \<and> is_dict ex_store 0 \<and>
   td_eq ex_marked 0 (Plain (RDict (rev ex_config))) = Some True \<and>
   td_eq ex_marked 0 (Ref 1) = Some False \<and>
   td_eq ex_marked 0 (Plain (RDict ex_config)) = td_eq ex_store 0 (Plain (RDict ex_config))"
proof -
  have d1: "is_dict ex_marked 1" and d0: "is_dict ex_store 0"
    by (simp_all add: ex_marked_def ex_defs op_defs)
  have dat: "d_data (dict_at ex_marked 0) = d_data (dict_at ex_store 0)"
    by (simp add: ex_marked_def ex_defs op_defs)
  from eq_is_structural[of ex_store 0 "rev ex_config" "[]" 1 ex_marked 0 "RDict ex_config" 1]
    eq_is_structural[of ex_marked 0 "rev ex_config" "[]" 1 ex_marked 0 "RDict ex_config" 1]
    d1 d0 dat
  show ?thesis
    by (simp add: ex_marked_def ex_defs op_defs)
qed

lemma node_over_node_for_ex: "node_over ob v p \<Longrightarrow> \<exists>ob'. node_for v p = Some ob'"
  by (cases v) (simp_all add: node_over_def node_for_def)


lemma cached_list_child:
  assumes ok: "store_ok h" and d: "is_list h a" and c: "map_of (l_children (list_at h a)) i = Some c"
  shows "a < c \<and> c < length h \<and>
         (\<exists>v ob. list_subscript (l_data (list_at h a)) i = Inr v \<and>
                 node_for v (tl_child_path (list_at h a) i) = Some ob \<and>
                 node_over (h ! c) v (tl_child_path (list_at h a) i))"
proof -
  from d have a: "a < length h" and ha: "h ! a = ListObj (list_at h a)" by (simp_all add: is_list_iff)
  from ok a have oka: "obj_ok h a" by (simp add: store_ok_def)
  from c have "(i, c) \<in> set (l_children (list_at h a))" by (rule map_of_SomeD)
  from obj_ok_listD[OF oka ha this] obtain v where
    v: "a < c" "c < length h" "list_subscript (l_data (list_at h a)) i = Inr v"
       "node_over (h ! c) v (tl_child_path (list_at h a) i)"
    by blast
  from node_over_node_for_ex[OF v(4)] obtain ob where "node_for v (tl_child_path (list_at h a) i) = Some ob" ..
  with v show ?thesis by simp
qed


lemma tl_wrap_cached:
  assumes ok: "store_ok h" and d: "is_list h a" and c: "map_of (l_children (list_at h a)) i = Some c"
    and v: "list_subscript (l_data (list_at h a)) i = Inr v"
  shows "tl_wrap h a i v = (Inr (Ref c), h)"
proof -
  from cached_list_child[OF ok d c] v obtain ob where
    "node_for v (tl_child_path (list_at h a) i) = Some ob" by auto
  with c show ?thesis by (simp add: tl_wrap_eq[OF d])
qed


lemma td_read_present:
  assumes d: "is_dict h a" and v: "map_of (d_data (dict_at h a)) k = Some v"
  shows "td_getitem h a k = td_wrap (td_add_accessed h a {k}) a k v"
    and "td_get h a k dflt = td_wrap (td_add_accessed h a {k}) a k v"
  using v by (simp_all add: td_getitem_eq[OF d] td_get_eq[OF d])

lemma tl_wrap_wrapped:
  assumes ok: "store_ok h" and d: "is_list h a"
    and sub: "list_subscript (l_data (list_at h a)) i = Inr v"
  shows "\<exists>w h'. tl_wrap h a i v = (Inr w, h') \<and> tl_frame h h' a \<and> store_ok h' \<and> tl_wrapped h' a i v w"
proof -
  let ?s = "list_at h a"
  from d have a: "a < length h" and ha: "h ! a = ListObj ?s" by (simp_all add: is_list_iff)
  show ?thesis
  proof (cases "node_for v (tl_child_path ?s i)")
    case None
    then have "\<exists>x. v = Scalar x" by (auto simp: node_for_def split: raw.splits)
    with None d ok show ?thesis
      by (auto simp: tl_wrap_eq[OF d] tl_frame_refl tl_wrapped_def)
  next
    case (Some ob)
    then have nsc: "\<And>x. v \<noteq> Scalar x" by (auto simp: node_for_def)
    show ?thesis
    proof (cases "map_of (l_children ?s) i")
      case (Some c)
      have eq: "tl_wrap h a i v = (Inr (Ref c), h)"
        using tl_wrap_cached[OF ok d Some sub] .
      from cached_list_child[OF ok d Some] sub
      have "c < length h" "node_over (h ! c) v (tl_child_path ?s i)" by auto
      with Some nsc have "tl_wrapped h a i v (Ref c)"
        by (cases v) (auto simp: tl_wrapped_def)
      with eq d ok show ?thesis by (auto simp: tl_frame_refl)
    next
      case None
      let ?h' = "(h @ [ob])[a := ListObj (?s\<lparr>l_children := l_children ?s @ [(i, length h)]\<rparr>)]"
      have eq: "tl_wrap h a i v = (Inr (Ref (length h)), ?h')"
        using None \<open>node_for v (tl_child_path ?s i) = Some ob\<close> by (simp add: tl_wrap_eq[OF d])
      have ok': "store_ok ?h'"
        using store_ok_add_child_list[OF ok a ha sub \<open>node_for v (tl_child_path ?s i) = Some ob\<close>] .
      have da: "list_at ?h' a = ?s\<lparr>l_children := l_children ?s @ [(i, length h)]\<rparr>"
        using a by (simp add: list_at_def)
      have fr: "tl_frame h ?h' a"
        using a None by (auto simp: tl_frame_def is_list_def da nth_append map_add_def split: option.splits)
      have new: "?h' ! length h = ob" using a by (simp add: nth_append)
      have wr: "tl_wrapped ?h' a i v (Ref (length h))"
        using nsc None node_over_node_for[OF \<open>node_for v (tl_child_path ?s i) = Some ob\<close>]
        by (cases v) (simp_all add: tl_wrapped_def da new map_add_def node_over_def)
      from eq ok' fr wr show ?thesis by blast
    qed
  qed
qed


lemma td_read_effect:
  assumes ok: "store_ok h" and d: "is_dict h a" and v: "map_of (d_data (dict_at h a)) k = Some v"
  shows "\<exists>w h'. td_getitem h a k = (Inr w, h') \<and> td_get h a k dflt = (Inr w, h') \<and>
           store_ok h' \<and> is_dict h' a \<and> wrapped h' a k v w \<and>
           d_data (dict_at h' a) = d_data (dict_at h a) \<and>
           d_accessed (dict_at h' a) = insert k (d_accessed (dict_at h a)) \<and>
           set (dict_keys (d_children (dict_at h' a))) \<subseteq> insert k (set (dict_keys (d_children (dict_at h a)))) \<and>
           length h \<le> length h' \<and> (\<forall>b < length h. b \<noteq> a \<longrightarrow> h' ! b = h ! b) \<and>
           (\<forall>b. length h \<le> b \<and> b < length h' \<longrightarrow> child_addrs (h' ! b) = [])"
proof -
  let ?h1 = "td_add_accessed h a {k}"
  have d1: "is_dict ?h1 a"
    and s1: "dict_at ?h1 a = (dict_at h a)\<lparr>d_accessed := d_accessed (dict_at h a) \<union> {k}\<rparr>"
    and l1: "length ?h1 = length h"
    and o1: "\<And>b. b \<noteq> a \<Longrightarrow> ?h1 ! b = h ! b"
    using td_add_accessed_facts[OF d] by simp_all
  have ok1: "store_ok ?h1" using store_ok_add_accessed[OF ok d] .
  from v have sub: "subscript (d_data (dict_at ?h1 a)) k = Inr v" by (simp add: s1 subscript_def)
  from td_wrap_effect[OF d1 sub] ok1 obtain w h' where
    w: "td_wrap ?h1 a k v = (Inr w, h')" and fr: "td_frame ?h1 h' a"
    and ks: "set (dict_keys (d_children (dict_at h' a))) \<subseteq> insert k (set (dict_keys (d_children (dict_at ?h1 a))))"
    and fresh: "\<forall>b. length ?h1 \<le> b \<and> b < length h' \<longrightarrow> child_addrs (h' ! b) = []"
    and ok': "store_ok h'" and wr: "wrapped h' a k v w"
    by blast
  from fr have f: "length ?h1 \<le> length h'" "is_dict h' a"
    "d_data (dict_at h' a) = d_data (dict_at ?h1 a)"
    "d_accessed (dict_at h' a) = d_accessed (dict_at ?h1 a)"
    "\<forall>b < length ?h1. b \<noteq> a \<longrightarrow> h' ! b = ?h1 ! b"
    by (simp_all add: td_frame_def)
  have "td_getitem h a k = (Inr w, h')" "td_get h a k dflt = (Inr w, h')"
    using td_read_present[OF d v] w by simp_all
  moreover have "\<forall>b < length h. b \<noteq> a \<longrightarrow> h' ! b = h ! b"
    using f(5) o1 l1 by simp
  ultimately show ?thesis
    using ok' wr f(1-4) ks fresh by (simp add: s1 l1)
qed

lemma tl_read_effect:
  assumes ok: "store_ok h" and d: "is_list h a"
  shows "store_ok (snd (tl_getitem h a i)) \<and> tl_frame h (snd (tl_getitem h a i)) a"
proof (cases "list_subscript (l_data (list_at h a)) i")
  case (Inl e)
  with ok d show ?thesis by (simp add: tl_getitem_def tl_frame_refl)
next
  case (Inr v)
  from tl_wrap_wrapped[OF ok d Inr] Inr show ?thesis by (auto simp: tl_getitem_def)
qed






lemma ex_deep_eq:
  "ex_deep =
    [DictObj \<lparr>d_data = ex_nested, d_path = [], d_accessed = {''a''}, d_children = [(''a'', 1)]\<rparr>,
     DictObj \<lparr>d_data = [(''b'', RList [RDict [(''c'', Scalar (SInt 1)), (''d'', Scalar (SInt 2))]])],
              d_path = ''a'', d_accessed = {''b''}, d_children = [(''b'', 2)]\<rparr>,
     ListObj \<lparr>l_data = [RDict [(''c'', Scalar (SInt 1)), (''d'', Scalar (SInt 2))]],
              l_path = ''a.b'', l_children = [(0, 3)]\<rparr>,
     DictObj \<lparr>d_data = [(''c'', Scalar (SInt 1)), (''d'', Scalar (SInt 2))],
              d_path = ''a.b[0]'', d_accessed = {''c''}, d_children = []\<rparr>]"
  by (simp add: ex_deep_def ex_nested_def TrackedDict_def TrackedList_def op_defs Let_def
        str_int_def str_nat.simps digit_char_def)

lemma store_ok_ex_deep: "store_ok ex_deep"
  unfolding ex_deep_eq
  by (simp add: store_ok_def obj_ok_def All_less_Suc eval_nat_numeral ex_nested_def
        subscript_def list_subscript_def node_over_def td_child_path_def tl_child_path_def
        str_int_def str_nat.simps digit_char_def)










lemma spec_emit_emit_with: "spec_emit h = emit_with (unaccessed h)"
  by (intro ext) (simp add: spec_emit_def emit_with_def)

lemma map_of_dict_vals: "map_of d k = Some c \<Longrightarrow> c \<in> set (dict_vals d)"
  by (auto simp: dict_vals_def dest!: map_of_SomeD intro: rev_image_eqI)

lemma td_collect_eq:
  assumes "\<forall>c \<in> set (dict_vals (d_children s)). \<exists>r. sub c = Some r"
  shows "td_collect sub s ks acc = Some (acc @ concat (map (emit_with sub s) ks))"
  using assms
proof (induction ks arbitrary: acc)
  case Nil
  show ?case by simp
next
  case (Cons key ks)
  show ?case
  proof (cases "key \<in> d_accessed s")
    case False
    then show ?thesis using Cons by (simp add: emit_with_def)
  next
    case True
    show ?thesis
    proof (cases "map_of (d_children s) key")
      case None
      with True Cons show ?thesis by (simp add: emit_with_def has_key_def)
    next
      case (Some c)
      with Cons.prems obtain r where "sub c = Some r" using map_of_dict_vals by fastforce
      with True Some Cons show ?thesis
        by (simp add: emit_with_def has_key_def subscript_def)
    qed
  qed
qed

lemma td_collect_cong:
  assumes "\<forall>c \<in> set (dict_vals (d_children s)). sub c = sub' c"
  shows "td_collect sub s ks acc = td_collect sub' s ks acc"
  using assms
proof (induction ks arbitrary: acc)
  case Nil
  show ?case by simp
next
  case (Cons key ks)
  show ?case
  proof (cases "map_of (d_children s) key")
    case None
    with Cons show ?thesis by (simp add: has_key_def)
  next
    case (Some c)
    with Cons.prems have "sub c = sub' c" using map_of_dict_vals by fastforce
    with Some Cons show ?thesis
      by (simp add: has_key_def subscript_def split: option.splits)
  qed
qed

lemma tl_collect_eq:
  assumes "\<forall>c \<in> set cs. \<exists>r. sub c = Some r"
  shows "tl_collect sub cs acc = Some (acc @ concat (map (sub_list sub) cs))"
  using assms
proof (induction cs arbitrary: acc)
  case Nil
  show ?case by simp
next
  case (Cons c cs)
  then obtain r where "sub c = Some r" by auto
  with Cons show ?case by (simp add: sub_list_def)
qed

lemma tl_collect_cong:
  assumes "\<forall>c \<in> set cs. sub c = sub' c"
  shows "tl_collect sub cs acc = tl_collect sub' cs acc"
  using assms
proof (induction cs arbitrary: acc)
  case Nil
  show ?case by simp
next
  case (Cons c cs)
  from Cons.prems have c: "sub c = sub' c" and rest: "\<forall>c \<in> set cs. sub c = sub' c"
    by simp_all
  have "tl_collect sub cs acc' = tl_collect sub' cs acc'" for acc'
    using Cons.IH[OF rest] .
  then show ?case by (simp add: c split: option.splits)
qed

lemma wf_heap_child:
  assumes "wf_heap h" "a < length h" "c \<in> set (child_addrs (h ! a))"
  shows "a < c \<and> c < length h"
  using assms unfolding wf_heap_def by blast

text \<open>With fuel for the longest chain below a node, the call returns, and more fuel changes nothing.\<close>

lemma unaccessed_aux_enough:
  assumes wf: "wf_heap h"
  shows "a < length h \<Longrightarrow> \<exists>r. \<forall>n. length h - a \<le> n \<longrightarrow> unaccessed_aux n h a = Some r"
proof (induction "length h - a" arbitrary: a rule: less_induct)
  case less
  let ?m = "length h - a - 1"
  have kids: "\<forall>c \<in> set (child_addrs (h ! a)). \<forall>n. ?m \<le> n \<longrightarrow> unaccessed_aux n h c = unaccessed_aux ?m h c \<and> (\<exists>r. unaccessed_aux ?m h c = Some r)"
  proof (intro ballI allI impI)
    fix c n assume c: "c \<in> set (child_addrs (h ! a))" and n: "?m \<le> n"
    from wf_heap_child[OF wf less.prems c] have ac: "a < c" "c < length h" by simp_all
    then have "length h - c < length h - a" by simp
    from less.hyps[OF this ac(2)] obtain r where r: "\<forall>n. length h - c \<le> n \<longrightarrow> unaccessed_aux n h c = Some r"
      by blast
    from ac have "length h - c \<le> ?m" by simp
    with r n show "unaccessed_aux n h c = unaccessed_aux ?m h c \<and> (\<exists>r. unaccessed_aux ?m h c = Some r)"
      by simp
  qed
  show ?case
  proof (cases "h ! a")
    case (DictObj s)
    then have ch: "child_addrs (h ! a) = dict_vals (d_children s)" by (simp add: child_addrs_def)
    from kids have tot: "\<forall>c \<in> set (dict_vals (d_children s)). \<exists>r. unaccessed_aux ?m h c = Some r"
      unfolding ch by blast
    have "unaccessed_aux n h a = Some (sort (concat (map (emit_with (unaccessed_aux ?m h) s) (dict_keys (d_data s)))))"
      if n: "length h - a \<le> n" for n
    proof -
      from n less.prems obtain n' where n': "n = Suc n'" "?m \<le> n'" by (cases n) auto
      from kids n'(2) have "\<forall>c \<in> set (dict_vals (d_children s)). unaccessed_aux n' h c = unaccessed_aux ?m h c"
        unfolding ch by blast
      from td_collect_cong[OF this] td_collect_eq[OF tot]
      show ?thesis using DictObj less.prems by (simp add: n'(1))
    qed
    then show ?thesis by blast
  next
    case (ListObj s)
    then have ch: "child_addrs (h ! a) = dict_vals (l_children s)" by (simp add: child_addrs_def)
    from kids have tot: "\<forall>c \<in> set (dict_vals (l_children s)). \<exists>r. unaccessed_aux ?m h c = Some r"
      unfolding ch by blast
    have "unaccessed_aux n h a = Some (sort (concat (map (sub_list (unaccessed_aux ?m h)) (dict_vals (l_children s)))))"
      if n: "length h - a \<le> n" for n
    proof -
      from n less.prems obtain n' where n': "n = Suc n'" "?m \<le> n'" by (cases n) auto
      from kids n'(2) have "\<forall>c \<in> set (dict_vals (l_children s)). unaccessed_aux n' h c = unaccessed_aux ?m h c"
        unfolding ch by blast
      from tl_collect_cong[OF this] tl_collect_eq[OF tot]
      show ?thesis using ListObj less.prems by (simp add: n'(1))
    qed
    then show ?thesis by blast
  qed
qed

lemma unaccessed_total:
  assumes "wf_heap h" "a < length h"
  shows "\<exists>r. unaccessed h a = Some r"
proof -
  from unaccessed_aux_enough[OF assms] obtain r where
    r: "\<forall>n. length h - a \<le> n \<longrightarrow> unaccessed_aux n h a = Some r" by blast
  then have "unaccessed_aux (length h) h a = Some r" by simp
  then show ?thesis by (simp add: unaccessed_def)
qed

lemma unaccessed_aux_fuel:
  assumes "wf_heap h" "a < length h" "length h - a \<le> n"
  shows "unaccessed_aux n h a = unaccessed h a"
proof -
  from unaccessed_aux_enough[OF assms(1,2)] obtain r where
    r: "\<forall>n. length h - a \<le> n \<longrightarrow> unaccessed_aux n h a = Some r" by blast
  with assms(3) have "unaccessed_aux n h a = Some r" by simp
  moreover from r have "unaccessed_aux (length h) h a = Some r" by simp
  ultimately show ?thesis by (simp add: unaccessed_def)
qed

lemma unaccessed_dict_eq:
  assumes wf: "wf_heap h" and d: "is_dict h a"
  shows "unaccessed h a = Some (sort (concat (map (emit_with (unaccessed h) (dict_at h a)) (dict_keys (d_data (dict_at h a))))))"
proof -
  let ?s = "dict_at h a"
  from d have a: "a < length h" and ha: "h ! a = DictObj ?s" by (simp_all add: is_dict_iff)
  then obtain n where n: "length h = Suc n" by (cases "length h") auto
  have ch: "child_addrs (h ! a) = dict_vals (d_children ?s)" by (subst ha) (simp add: child_addrs_def)
  have kid: "a < c \<and> c < length h" if "c \<in> set (dict_vals (d_children ?s))" for c
    using wf_heap_child[OF wf a] that ch by simp
  have same: "\<forall>c \<in> set (dict_vals (d_children ?s)). unaccessed_aux n h c = unaccessed h c"
  proof
    fix c assume c: "c \<in> set (dict_vals (d_children ?s))"
    from kid[OF c] n have "c < length h" "length h - c \<le> n" by auto
    with wf show "unaccessed_aux n h c = unaccessed h c" by (intro unaccessed_aux_fuel)
  qed
  have tot: "\<forall>c \<in> set (dict_vals (d_children ?s)). \<exists>r. unaccessed h c = Some r"
  proof
    fix c assume c: "c \<in> set (dict_vals (d_children ?s))"
    from kid[OF c] have "c < length h" by simp
    from unaccessed_total[OF wf this] show "\<exists>r. unaccessed h c = Some r" .
  qed
  have "unaccessed h a = unaccessed_aux (Suc n) h a" by (simp add: unaccessed_def n)
  also have "\<dots> = map_option sort (td_collect (unaccessed_aux n h) ?s (dict_keys (d_data ?s)) [])"
    using a by (simp, subst ha, simp)
  also have "\<dots> = map_option sort (td_collect (unaccessed h) ?s (dict_keys (d_data ?s)) [])"
    using td_collect_cong[OF same] by simp
  also have "\<dots> = Some (sort (concat (map (emit_with (unaccessed h) ?s) (dict_keys (d_data ?s)))))"
    using td_collect_eq[OF tot] by simp
  finally show ?thesis .
qed

lemma unaccessed_list_eq:
  assumes wf: "wf_heap h" and d: "is_list h a"
  shows "unaccessed h a = Some (sort (concat (map (sub_list (unaccessed h)) (dict_vals (l_children (list_at h a))))))"
proof -
  let ?s = "list_at h a"
  from d have a: "a < length h" and ha: "h ! a = ListObj ?s" by (simp_all add: is_list_iff)
  then obtain n where n: "length h = Suc n" by (cases "length h") auto
  have ch: "child_addrs (h ! a) = dict_vals (l_children ?s)" by (subst ha) (simp add: child_addrs_def)
  have kid: "a < c \<and> c < length h" if "c \<in> set (dict_vals (l_children ?s))" for c
    using wf_heap_child[OF wf a] that ch by simp
  have same: "\<forall>c \<in> set (dict_vals (l_children ?s)). unaccessed_aux n h c = unaccessed h c"
  proof
    fix c assume c: "c \<in> set (dict_vals (l_children ?s))"
    from kid[OF c] n have "c < length h" "length h - c \<le> n" by auto
    with wf show "unaccessed_aux n h c = unaccessed h c" by (intro unaccessed_aux_fuel)
  qed
  have tot: "\<forall>c \<in> set (dict_vals (l_children ?s)). \<exists>r. unaccessed h c = Some r"
  proof
    fix c assume c: "c \<in> set (dict_vals (l_children ?s))"
    from kid[OF c] have "c < length h" by simp
    from unaccessed_total[OF wf this] show "\<exists>r. unaccessed h c = Some r" .
  qed
  have "unaccessed h a = unaccessed_aux (Suc n) h a" by (simp add: unaccessed_def n)
  also have "\<dots> = map_option sort (tl_collect (unaccessed_aux n h) (dict_vals (l_children ?s)) [])"
    using a by (simp, subst ha, simp)
  also have "\<dots> = map_option sort (tl_collect (unaccessed h) (dict_vals (l_children ?s)) [])"
    using tl_collect_cong[OF same] by simp
  also have "\<dots> = Some (sort (concat (map (sub_list (unaccessed h)) (dict_vals (l_children ?s)))))"
    using tl_collect_eq[OF tot] by simp
  finally show ?thesis .
qed

text \<open>
  C2. On a well-formed store, \<open>unaccessed()\<close> of a map node returns, and what it returns is
  the sorted list of what the keys of the raw mapping emit, visited in the mapping's order: a
  key outside the accessed set emits its own path and is not descended into; an accessed key
  with a cached child emits what the child's \<open>unaccessed()\<close> returns; an accessed key without
  a cached child emits nothing. The call on each cached child returns as well.
\<close>

theorem unaccessed_refines_spec:
  assumes wf: "wf_heap h" and d: "is_dict h a"
  shows "unaccessed h a = Some (spec_unaccessed h (dict_at h a)) \<and>
         sorted (spec_unaccessed h (dict_at h a)) \<and>
         (\<forall>key c. map_of (d_children (dict_at h a)) key = Some c \<longrightarrow> (\<exists>ps. unaccessed h c = Some ps))"
proof (intro conjI allI impI)
  show "unaccessed h a = Some (spec_unaccessed h (dict_at h a))"
    using unaccessed_dict_eq[OF wf d] by (simp add: spec_unaccessed_def spec_emit_emit_with)
  show "sorted (spec_unaccessed h (dict_at h a))" by (simp add: spec_unaccessed_def)
next
  fix key c assume "map_of (d_children (dict_at h a)) key = Some c"
  then have "c \<in> set (dict_vals (d_children (dict_at h a)))" by (rule map_of_dict_vals)
  moreover from d have "a < length h" "child_addrs (h ! a) = dict_vals (d_children (dict_at h a))"
    by (auto simp: is_dict_def child_addrs_def dict_at_def split: obj.splits)
  ultimately have "c < length h" using wf_heap_child[OF wf, of a c] by simp
  with wf show "\<exists>ps. unaccessed h c = Some ps" by (rule unaccessed_total)
qed

lemma td_getitem_store_ok:
  assumes ok: "store_ok h" and d: "is_dict h a"
  shows "store_ok (snd (td_getitem h a k)) \<and> is_dict (snd (td_getitem h a k)) a"
proof (cases "map_of (d_data (dict_at h a)) k")
  case None
  then show ?thesis
    using store_ok_add_accessed[OF ok d] td_add_accessed_facts(1)[OF d]
    by (simp add: td_getitem_eq[OF d])
next
  case (Some v)
  from td_read_effect[OF ok d Some, of "Plain (Scalar SNone)"] obtain w h' where
    "td_getitem h a k = (Inr w, h')" "store_ok h'" "is_dict h' a" by blast
  then show ?thesis by simp
qed

lemma ex_marked_eq:
  "ex_marked =
    [DictObj \<lparr>d_data = ex_config, d_path = [], d_accessed = {''s''}, d_children = [(''s'', 1)]\<rparr>,
     DictObj \<lparr>d_data = [(''x'', Scalar (SInt 1)), (''y'', Scalar (SInt 2))], d_path = ''s'',
              d_accessed = {}, d_children = []\<rparr>]"
  by (simp add: ex_marked_def ex_defs op_defs Let_def)

lemma store_ok_ex_marked: "store_ok ex_marked"
  unfolding ex_marked_def
  using td_getitem_store_ok[OF store_ok_ex_store, of 0 "''s''"]
  by (simp add: is_dict_def ex_defs)

theorem unaccessed_refines_spec_witness:
  "wf_heap ex_marked \<and> is_dict ex_marked 0 \<and>
   unaccessed ex_marked 0 = Some [''a'', ''s.x'', ''s.y''] \<and>
   unaccessed ex_marked 1 = Some [''s.x'', ''s.y'']"
proof -
  have wf: "wf_heap ex_marked" using store_ok_ex_marked by (rule store_ok_wf)
  have d: "is_dict ex_marked 0" "is_dict ex_marked 1" by (simp_all add: ex_marked_eq is_dict_def)
  have s1: "spec_unaccessed ex_marked (dict_at ex_marked 1) = [''s.x'', ''s.y'']"
    by (simp add: ex_marked_eq spec_unaccessed_def spec_emit_def dict_at_def dict_keys_def
          td_child_path_def)
  from unaccessed_refines_spec[OF wf d(2)] s1
  have u1: "unaccessed ex_marked 1 = Some [''s.x'', ''s.y'']" by simp
  have s0: "spec_unaccessed ex_marked (dict_at ex_marked 0) = [''a'', ''s.x'', ''s.y'']"
    using u1
    by (simp add: ex_marked_eq spec_unaccessed_def spec_emit_def dict_at_def dict_keys_def
          td_child_path_def ex_config_def)
  from unaccessed_refines_spec[OF wf d(1)] s0 u1 wf d
  show ?thesis by simp
qed



lemma map_of_dict_keys: "map_of d k = Some v \<Longrightarrow> k \<in> set (dict_keys d)"
  by (auto simp: dict_keys_def dest: map_of_SomeD intro: rev_image_eqI)




lemma td_evolves_refl: "is_dict h a \<Longrightarrow> td_evolves h h a"
  by (auto simp: td_evolves_def)

lemma td_evolves_add_accessed:
  assumes d: "is_dict h a"
  shows "td_evolves h (td_add_accessed h a ks) a"
  using td_add_accessed_facts[OF d, where ks = ks]
  by (auto simp: td_evolves_def)

lemma td_evolves_frame:
  assumes d: "is_dict h a" and e: "td_evolves h h1 a" and fr: "td_frame h1 h' a"
    and ks: "set (dict_keys (d_children (dict_at h' a))) \<subseteq> K \<union> set (dict_keys (d_children (dict_at h1 a)))"
    and K: "K \<subseteq> d_accessed (dict_at h1 a)"
    and fresh: "\<forall>b. length h1 \<le> b \<and> b < length h' \<longrightarrow> child_addrs (h' ! b) = []"
  shows "td_evolves h h' a"
proof -
  from d have a: "a < length h" by (simp add: is_dict_def)
  from e have e1: "length h \<le> length h1"
    and e3: "d_data (dict_at h1 a) = d_data (dict_at h a)"
    and e4: "d_path (dict_at h1 a) = d_path (dict_at h a)"
    and e5: "d_accessed (dict_at h a) \<subseteq> d_accessed (dict_at h1 a)"
    and e6: "\<forall>k c. map_of (d_children (dict_at h a)) k = Some c \<longrightarrow>
             map_of (d_children (dict_at h1 a)) k = Some c"
    and e7: "set (dict_keys (d_children (dict_at h1 a))) \<subseteq>
        set (dict_keys (d_children (dict_at h a))) \<union> d_accessed (dict_at h1 a)"
    and e8: "\<forall>b < length h. b \<noteq> a \<longrightarrow> h1 ! b = h ! b"
    and e9: "\<forall>b. length h \<le> b \<and> b < length h1 \<longrightarrow> child_addrs (h1 ! b) = []"
    by (simp_all add: td_evolves_def)
  from fr have f1: "length h1 \<le> length h'" and f2: "is_dict h' a"
    and f3: "d_data (dict_at h' a) = d_data (dict_at h1 a)"
    and f4: "d_path (dict_at h' a) = d_path (dict_at h1 a)"
    and f5: "d_accessed (dict_at h' a) = d_accessed (dict_at h1 a)"
    and f6: "\<forall>k c. map_of (d_children (dict_at h1 a)) k = Some c \<longrightarrow>
             map_of (d_children (dict_at h' a)) k = Some c"
    and f8: "\<forall>b < length h1. b \<noteq> a \<longrightarrow> h' ! b = h1 ! b"
    by (simp_all add: td_frame_def)
  have c1: "length h \<le> length h'" using e1 f1 by simp
  have c6: "\<forall>k c. map_of (d_children (dict_at h a)) k = Some c \<longrightarrow>
             map_of (d_children (dict_at h' a)) k = Some c"
    using e6 f6 by blast
  have c7: "set (dict_keys (d_children (dict_at h' a))) \<subseteq>
        set (dict_keys (d_children (dict_at h a))) \<union> d_accessed (dict_at h' a)"
    using ks K e7 f5 by blast
  have c8: "\<forall>b < length h. b \<noteq> a \<longrightarrow> h' ! b = h ! b"
    using e8 f8 e1 by auto
  have c9: "\<forall>b. length h \<le> b \<and> b < length h' \<longrightarrow> child_addrs (h' ! b) = []"
  proof (intro allI impI)
    fix b assume b: "length h \<le> b \<and> b < length h'"
    show "child_addrs (h' ! b) = []"
    proof (cases "b < length h1")
      case True
      with a b f8 have "h' ! b = h1 ! b" by simp
      with e9 b True show ?thesis by simp
    next
      case False
      with fresh b show ?thesis by simp
    qed
  qed
  show ?thesis
    unfolding td_evolves_def
    using c1 f2 e3 f3 e4 f4 e5 f5 c6 c7 c8 c9 by simp
qed

lemma td_values_items:
  "td_values h a = (case td_items h a of (r, h') \<Rightarrow> (map_sum id (map snd) r, h'))"
  using td_values_loop_items[of "td_add_accessed h a (set (dict_keys (d_data (dict_at h a))))" a
      "dict_keys (d_data (dict_at (td_add_accessed h a (set (dict_keys (d_data (dict_at h a))))) a))" "[]"]
  by (simp add: td_values_def td_items_def Let_def)

lemma td_items_effect:
  assumes ok: "store_ok h" and d: "is_dict h a"
  shows "\<exists>kvs h'. td_items h a = (Inr kvs, h') \<and> td_values h a = (Inr (map snd kvs), h') \<and>
           store_ok h' \<and> td_evolves h h' a \<and>
           map fst kvs = dict_keys (d_data (dict_at h a)) \<and>
           d_accessed (dict_at h' a) = d_accessed (dict_at h a) \<union> set (dict_keys (d_data (dict_at h a))) \<and>
           (\<forall>(k, w) \<in> set kvs. \<exists>v. map_of (d_data (dict_at h a)) k = Some v \<and> wrapped h' a k v w)"
proof -
  let ?dat = "d_data (dict_at h a)"
  let ?ks = "dict_keys ?dat"
  let ?h1 = "td_add_accessed h a (set ?ks)"
  have d1: "is_dict ?h1 a"
    and s1: "dict_at ?h1 a = (dict_at h a)\<lparr>d_accessed := d_accessed (dict_at h a) \<union> set ?ks\<rparr>"
    using td_add_accessed_facts[OF d, where ks = "set ?ks"] by simp_all
  have ok1: "store_ok ?h1" using store_ok_add_accessed[OF ok d] .
  have dat1: "d_data (dict_at ?h1 a) = ?dat" by (simp add: s1)
  have sub1: "set ?ks \<subseteq> set (dict_keys (d_data (dict_at ?h1 a)))" by (simp add: dat1)
  from td_items_loop_effect[OF d1 sub1, of "[]"] ok1 obtain out' h' where
    l: "td_items_loop ?h1 a ?ks [] = (Inr out', h')" and fr: "td_frame ?h1 h' a"
    and m: "map fst out' = ?ks"
    and ks: "set (dict_keys (d_children (dict_at h' a))) \<subseteq> set ?ks \<union> set (dict_keys (d_children (dict_at ?h1 a)))"
    and fresh: "\<forall>b. length ?h1 \<le> b \<and> b < length h' \<longrightarrow> child_addrs (h' ! b) = []"
    and ok': "store_ok h'"
    and wr: "\<forall>(k, w) \<in> set out'. \<exists>v. subscript (d_data (dict_at ?h1 a)) k = Inr v \<and> wrapped h' a k v w"
    by auto
  have it: "td_items h a = (Inr out', h')" using l by (simp add: td_items_def Let_def dat1)
  then have va: "td_values h a = (Inr (map snd out'), h')" by (simp add: td_values_items)
  have K: "set ?ks \<subseteq> d_accessed (dict_at ?h1 a)" by (simp add: s1)
  have ev: "td_evolves h h' a"
    using td_evolves_frame[OF d td_evolves_add_accessed[OF d] fr ks K fresh] .
  from fr have acc: "d_accessed (dict_at h' a) = d_accessed (dict_at h a) \<union> set ?ks"
    by (simp add: td_frame_def s1)
  from wr have wr': "\<forall>(k, w) \<in> set out'. \<exists>v. map_of ?dat k = Some v \<and> wrapped h' a k v w"
    by (simp add: dat1 subscript_Inr_iff)
  from it va ok' ev m acc wr' show ?thesis by blast
qed

lemma td_getitem_effect:
  assumes ok: "store_ok h" and d: "is_dict h a"
  shows "\<exists>r h'. td_getitem h a k = (r, h') \<and> store_ok h' \<and> td_evolves h h' a \<and>
           k \<in> d_accessed (dict_at h' a) \<and>
           (case map_of (d_data (dict_at h a)) k of
              None \<Rightarrow> r = Inl KeyError \<and> td_get h a k dflt = (Inr dflt, h')
            | Some v \<Rightarrow> (\<exists>w. r = Inr w \<and> td_get h a k dflt = (Inr w, h') \<and> wrapped h' a k v w))"
proof (cases "map_of (d_data (dict_at h a)) k")
  case None
  let ?h1 = "td_add_accessed h a {k}"
  have "k \<in> d_accessed (dict_at ?h1 a)"
    using td_add_accessed_facts(2)[OF d, where ks = "{k}"] by simp
  with None show ?thesis
    using store_ok_add_accessed[OF ok d] td_evolves_add_accessed[OF d]
    by (simp add: td_getitem_eq[OF d] td_get_eq[OF d])
next
  case (Some v)
  let ?h1 = "td_add_accessed h a {k}"
  have d1: "is_dict ?h1 a"
    and s1: "dict_at ?h1 a = (dict_at h a)\<lparr>d_accessed := d_accessed (dict_at h a) \<union> {k}\<rparr>"
    using td_add_accessed_facts[OF d, where ks = "{k}"] by simp_all
  have ok1: "store_ok ?h1" using store_ok_add_accessed[OF ok d] .
  from Some have sub: "subscript (d_data (dict_at ?h1 a)) k = Inr v" by (simp add: s1 subscript_def)
  from td_wrap_effect[OF d1 sub] ok1 obtain w h' where
    w: "td_wrap ?h1 a k v = (Inr w, h')" and fr: "td_frame ?h1 h' a"
    and ks: "set (dict_keys (d_children (dict_at h' a))) \<subseteq> insert k (set (dict_keys (d_children (dict_at ?h1 a))))"
    and fresh: "\<forall>b. length ?h1 \<le> b \<and> b < length h' \<longrightarrow> child_addrs (h' ! b) = []"
    and ok': "store_ok h'" and wr: "wrapped h' a k v w"
    by blast
  from ks have ks': "set (dict_keys (d_children (dict_at h' a))) \<subseteq> {k} \<union> set (dict_keys (d_children (dict_at ?h1 a)))"
    by simp
  have K: "{k} \<subseteq> d_accessed (dict_at ?h1 a)" by (simp add: s1)
  have ev: "td_evolves h h' a"
    using td_evolves_frame[OF d td_evolves_add_accessed[OF d] fr ks' K fresh] .
  from fr have acc: "k \<in> d_accessed (dict_at h' a)" by (simp add: td_frame_def s1)
  have g: "td_getitem h a k = (Inr w, h')" "td_get h a k dflt = (Inr w, h')"
    using td_read_present[OF d Some] w by simp_all
  with Some ok' ev acc wr show ?thesis by simp
qed

lemma list_subscript_Inl_iff:
  "list_subscript xs i = Inl e \<longleftrightarrow> e = IndexError \<and> \<not> (- int (length xs) \<le> i \<and> i < int (length xs))"
  by (auto simp: list_subscript_def)

lemma td_exec_effect:
  assumes ok: "store_ok h" and d: "is_dict h a"
  shows "\<exists>r h'. td_exec h a c = Some (r, h') \<and> store_ok h' \<and> td_evolves h h' a \<and>
           ((\<exists>e. r = Inl e) \<longleftrightarrow> (\<exists>k. c = DGetItem k \<and> k \<notin> set (dict_keys (d_data (dict_at h a))))) \<and>
           (\<forall>e. r = Inl e \<longrightarrow> e = KeyError)"
proof -
  note same = ok td_evolves_refl[OF d]
  show ?thesis
  proof (cases c)
    case (DGetItem k)
    from td_getitem_effect[OF ok d, of k "Plain (Scalar SNone)"] obtain r h' where
      g: "td_getitem h a k = (r, h')" and ok': "store_ok h'" and ev: "td_evolves h h' a"
      and r: "case map_of (d_data (dict_at h a)) k of
              None \<Rightarrow> r = Inl KeyError \<and> td_get h a k (Plain (Scalar SNone)) = (Inr (Plain (Scalar SNone)), h')
            | Some v \<Rightarrow> (\<exists>w. r = Inr w \<and> td_get h a k (Plain (Scalar SNone)) = (Inr w, h') \<and> wrapped h' a k v w)"
      by blast
    show ?thesis
    proof (cases "map_of (d_data (dict_at h a)) k")
      case None
      then have "k \<notin> set (dict_keys (d_data (dict_at h a)))"
        by (simp add: dict_keys_def map_of_eq_None_iff)
      with None r g ok' ev DGetItem show ?thesis by (simp add: returning_def)
    next
      case (Some v)
      then have "k \<in> set (dict_keys (d_data (dict_at h a)))" by (rule map_of_dict_keys)
      with Some r g ok' ev DGetItem show ?thesis by (auto simp: returning_def)
    qed
  next
    case (DGet k dflt)
    from td_getitem_effect[OF ok d, of k dflt] obtain r h' where
      ok': "store_ok h'" and ev: "td_evolves h h' a"
      and r: "case map_of (d_data (dict_at h a)) k of
              None \<Rightarrow> r = Inl KeyError \<and> td_get h a k dflt = (Inr dflt, h')
            | Some v \<Rightarrow> (\<exists>w. r = Inr w \<and> td_get h a k dflt = (Inr w, h') \<and> wrapped h' a k v w)"
      by blast
    then obtain w where "td_get h a k dflt = (Inr w, h')"
      by (cases "map_of (d_data (dict_at h a)) k") auto
    with ok' ev DGet show ?thesis by (simp add: returning_def)
  next
    case DValues
    from td_items_effect[OF ok d] obtain kvs :: "(string \<times> val) list" and h' where
      "td_values h a = (Inr (map snd kvs), h')" "store_ok h'" "td_evolves h h' a" by blast
    with DValues show ?thesis by (simp add: returning_def)
  next
    case DItems
    from td_items_effect[OF ok d] obtain kvs h' where
      "td_items h a = (Inr kvs, h')" "store_ok h'" "td_evolves h h' a" by blast
    with DItems show ?thesis by (simp add: returning_def)
  next
    case (DMarkAccessed ks)
    then show ?thesis
      using store_ok_add_accessed[OF ok d] td_evolves_add_accessed[OF d]
      by (simp add: td_mark_accessed_def)
  next
    case DMarkAllAccessed
    then show ?thesis
      using store_ok_add_accessed[OF ok d] td_evolves_add_accessed[OF d]
      by (simp add: td_mark_all_accessed_def)
  next
    case DUnaccessed
    from d have "a < length h" by (simp add: is_dict_def)
    from unaccessed_total[OF store_ok_wf[OF ok] this] obtain ps where "unaccessed h a = Some ps" ..
    with DUnaccessed same show ?thesis by simp
  next
    case (DContains k)
    with same show ?thesis by simp
  next
    case DLen
    with same show ?thesis by simp
  next
    case DBool
    with same show ?thesis by simp
  next
    case DIter
    with same show ?thesis by simp
  next
    case DKeys
    with same show ?thesis by simp
  next
    case DRaw
    with same show ?thesis by simp
  next
    case DAccessedKeys
    with same show ?thesis by simp
  next
    case (DEq other)
    with same show ?thesis by simp
  qed
qed

lemma tl_exec_effect:
  assumes ok: "store_ok h" and d: "is_list h l"
  shows "\<exists>r h'. tl_exec h l c = Some (r, h') \<and> store_ok h' \<and> tl_frame h h' l \<and>
           (\<forall>b. length h \<le> b \<and> b < length h' \<longrightarrow> child_addrs (h' ! b) = []) \<and>
           ((\<exists>e. r = Inl e) \<longleftrightarrow>
              (\<exists>i. c = LGetItem i \<and>
                   \<not> (- int (length (l_data (list_at h l))) \<le> i \<and> i < int (length (l_data (list_at h l)))))) \<and>
           (\<forall>e. r = Inl e \<longrightarrow> e = IndexError)"
proof -
  have fresh0: "\<forall>b. length h \<le> b \<and> b < length h \<longrightarrow> child_addrs (h ! b) = []" by auto
  note same = ok tl_frame_refl[OF d] fresh0
  show ?thesis
  proof (cases c)
    case (LGetItem i)
    show ?thesis
    proof (cases "list_subscript (l_data (list_at h l)) i")
      case (Inl e)
      then have "e = IndexError"
        "\<not> (- int (length (l_data (list_at h l))) \<le> i \<and> i < int (length (l_data (list_at h l))))"
        by (simp_all add: list_subscript_Inl_iff)
      with Inl LGetItem same show ?thesis by (simp add: tl_getitem_def returning_def)
    next
      case (Inr v)
      then have inb: "- int (length (l_data (list_at h l))) \<le> i \<and> i < int (length (l_data (list_at h l)))"
        by (auto simp: list_subscript_def split: if_splits)
      from tl_wrap_effect[OF d Inr] ok obtain w h' where
        "tl_wrap h l i v = (Inr w, h')" "tl_frame h h' l"
        "\<forall>b. length h \<le> b \<and> b < length h' \<longrightarrow> child_addrs (h' ! b) = []" "store_ok h'"
        by blast
      with Inr inb LGetItem show ?thesis by (simp add: tl_getitem_def returning_def)
    qed
  next
    case LIter
    have "\<forall>i \<in> set [0 ..< length (l_data (list_at h l))]. i < length (l_data (list_at h l))" by simp
    from tl_iter_loop_effect[OF d this, of "[]"] ok obtain vs h' where
      "tl_iter_loop h l [0 ..< length (l_data (list_at h l))] [] = (Inr vs, h')" "tl_frame h h' l"
      "\<forall>b. length h \<le> b \<and> b < length h' \<longrightarrow> child_addrs (h' ! b) = []" "store_ok h'"
      by blast
    with LIter show ?thesis by (simp add: tl_iter_def returning_def)
  next
    case LUnaccessed
    from d have "l < length h" by (simp add: is_list_def)
    from unaccessed_total[OF store_ok_wf[OF ok] this] obtain ps where "unaccessed h l = Some ps" ..
    with LUnaccessed same show ?thesis by simp
  next
    case LLen
    with same show ?thesis by simp
  next
    case LBool
    with same show ?thesis by simp
  next
    case LRaw
    with same show ?thesis by simp
  next
    case (LEq other)
    with same show ?thesis by simp
  qed
qed

text \<open>
  C6. Run on a node of a store that satisfies the invariant of the shadow tree, every public
  operation returns. A map operation raises exactly when it is the indexed lookup \<open>M[k]\<close> of
  a key absent from the raw mapping, and then it raises \<open>KeyError\<close>; a sequence operation
  raises exactly when it is the indexed lookup \<open>L[i]\<close> of an index outside the bounds
  \<open>-len \<le> i < len\<close> of the raw sequence, and then it raises \<open>IndexError\<close>. Defaulted
  lookup, membership, length, truthiness, iteration, marking, \<open>accessed_keys\<close>,
  \<open>unaccessed\<close>, \<open>raw\<close> and equality return a value.
\<close>

theorem only_indexed_lookups_fail:
  assumes ok: "store_ok h"
  shows "(is_dict h a \<longrightarrow>
            (\<exists>r h'. td_exec h a c = Some (r, h') \<and>
               ((\<exists>e. r = Inl e) \<longleftrightarrow>
                  (\<exists>k. c = DGetItem k \<and> k \<notin> set (dict_keys (d_data (dict_at h a))))) \<and>
               (\<forall>e. r = Inl e \<longrightarrow> e = KeyError))) \<and>
         (is_list h l \<longrightarrow>
            (\<exists>r h'. tl_exec h l lc = Some (r, h') \<and>
               ((\<exists>e. r = Inl e) \<longleftrightarrow>
                  (\<exists>i. lc = LGetItem i \<and>
                     \<not> (- int (length (l_data (list_at h l))) \<le> i \<and>
                        i < int (length (l_data (list_at h l)))))) \<and>
               (\<forall>e. r = Inl e \<longrightarrow> e = IndexError)))"
proof -
  have pd: "is_dict h a \<longrightarrow>
            (\<exists>r h'. td_exec h a c = Some (r, h') \<and>
               ((\<exists>e. r = Inl e) \<longleftrightarrow>
                  (\<exists>k. c = DGetItem k \<and> k \<notin> set (dict_keys (d_data (dict_at h a))))) \<and>
               (\<forall>e. r = Inl e \<longrightarrow> e = KeyError))"
  proof
    assume d: "is_dict h a"
    from td_exec_effect[OF ok d, of c]
    show "\<exists>r h'. td_exec h a c = Some (r, h') \<and>
               ((\<exists>e. r = Inl e) \<longleftrightarrow>
                  (\<exists>k. c = DGetItem k \<and> k \<notin> set (dict_keys (d_data (dict_at h a))))) \<and>
               (\<forall>e. r = Inl e \<longrightarrow> e = KeyError)"
      by (elim exE conjE) (intro exI conjI; assumption)
  qed
  have pl: "is_list h l \<longrightarrow>
            (\<exists>r h'. tl_exec h l lc = Some (r, h') \<and>
               ((\<exists>e. r = Inl e) \<longleftrightarrow>
                  (\<exists>i. lc = LGetItem i \<and>
                     \<not> (- int (length (l_data (list_at h l))) \<le> i \<and>
                        i < int (length (l_data (list_at h l)))))) \<and>
               (\<forall>e. r = Inl e \<longrightarrow> e = IndexError))"
  proof
    assume d: "is_list h l"
    from tl_exec_effect[OF ok d, of lc]
    show "\<exists>r h'. tl_exec h l lc = Some (r, h') \<and>
               ((\<exists>e. r = Inl e) \<longleftrightarrow>
                  (\<exists>i. lc = LGetItem i \<and>
                     \<not> (- int (length (l_data (list_at h l))) \<le> i \<and>
                        i < int (length (l_data (list_at h l)))))) \<and>
               (\<forall>e. r = Inl e \<longrightarrow> e = IndexError)"
      by (elim exE conjE) (intro exI conjI; assumption)
  qed
  show ?thesis by (rule conjI[OF pd pl])
qed

theorem only_indexed_lookups_fail_witness:
  "store_ok ex_deep \<and> is_dict ex_deep 1 \<and> is_list ex_deep 2 \<and>
   ''zz'' \<notin> set (dict_keys (d_data (dict_at ex_deep 1))) \<and>
   length (l_data (list_at ex_deep 2)) = 1 \<and>
   (\<exists>h'. td_exec ex_deep 1 (DGetItem ''zz'') = Some (Inl KeyError, h')) \<and>
   (\<exists>h'. tl_exec ex_deep 2 (LGetItem 1) = Some (Inl IndexError, h'))"
proof -
  have f: "is_dict ex_deep 1" "is_list ex_deep 2"
    "''zz'' \<notin> set (dict_keys (d_data (dict_at ex_deep 1)))"
    "length (l_data (list_at ex_deep 2)) = 1"
    unfolding ex_deep_eq
    by (simp_all add: is_dict_def is_list_def dict_at_def list_at_def dict_keys_def)
  note t = only_indexed_lookups_fail[OF store_ok_ex_deep, of 1 "DGetItem ''zz''" 2 "LGetItem 1"]
  from t have "is_dict ex_deep 1 \<longrightarrow>
            (\<exists>r h'. td_exec ex_deep 1 (DGetItem ''zz'') = Some (r, h') \<and>
               ((\<exists>e. r = Inl e) \<longleftrightarrow>
                  (\<exists>k. DGetItem ''zz'' = DGetItem k \<and> k \<notin> set (dict_keys (d_data (dict_at ex_deep 1))))) \<and>
               (\<forall>e. r = Inl e \<longrightarrow> e = KeyError))"
    by (rule conjunct1)
  from this f(1) obtain r h' where r: "td_exec ex_deep 1 (DGetItem ''zz'') = Some (r, h')"
    and iff: "(\<exists>e. r = Inl e) \<longleftrightarrow>
                  (\<exists>k. DGetItem ''zz'' = DGetItem k \<and> k \<notin> set (dict_keys (d_data (dict_at ex_deep 1))))"
    and ke: "\<forall>e. r = Inl e \<longrightarrow> e = KeyError"
    by (elim impE exE conjE)
  from f(3) have "\<exists>k. DGetItem ''zz'' = DGetItem k \<and> k \<notin> set (dict_keys (d_data (dict_at ex_deep 1)))"
    by simp
  with iff have "\<exists>e. r = Inl e" by (rule iffD2)
  then obtain e where e: "r = Inl e" ..
  with ke have "e = KeyError" by simp
  with r e have p1: "\<exists>h'. td_exec ex_deep 1 (DGetItem ''zz'') = Some (Inl KeyError, h')" by simp
  from t have "is_list ex_deep 2 \<longrightarrow>
            (\<exists>r h'. tl_exec ex_deep 2 (LGetItem 1) = Some (r, h') \<and>
               ((\<exists>e. r = Inl e) \<longleftrightarrow>
                  (\<exists>i. LGetItem 1 = LGetItem i \<and>
                     \<not> (- int (length (l_data (list_at ex_deep 2))) \<le> i \<and>
                        i < int (length (l_data (list_at ex_deep 2)))))) \<and>
               (\<forall>e. r = Inl e \<longrightarrow> e = IndexError))"
    by (rule conjunct2)
  from this f(2) obtain r2 h2 where r2: "tl_exec ex_deep 2 (LGetItem 1) = Some (r2, h2)"
    and iff2: "(\<exists>e. r2 = Inl e) \<longleftrightarrow>
                  (\<exists>i. LGetItem 1 = LGetItem i \<and>
                     \<not> (- int (length (l_data (list_at ex_deep 2))) \<le> i \<and>
                        i < int (length (l_data (list_at ex_deep 2)))))"
    and ie: "\<forall>e. r2 = Inl e \<longrightarrow> e = IndexError"
    by (elim impE exE conjE)
  have "\<exists>i. LGetItem 1 = LGetItem i \<and>
                     \<not> (- int (length (l_data (list_at ex_deep 2))) \<le> i \<and>
                        i < int (length (l_data (list_at ex_deep 2))))"
    by (simp add: f(4))
  with iff2 have "\<exists>e. r2 = Inl e" by (rule iffD2)
  then obtain e2 where e2: "r2 = Inl e2" ..
  with ie have "e2 = IndexError" by simp
  with r2 e2 have p2: "\<exists>h'. tl_exec ex_deep 2 (LGetItem 1) = Some (Inl IndexError, h')" by simp
  from f store_ok_ex_deep p1 p2 show ?thesis by simp
qed

lemma childless_keys:
  assumes "child_addrs (DictObj s) = []"
  shows "dict_keys (d_children s) = []"
  using assms by (simp add: child_addrs_def dict_vals_def dict_keys_def)

lemma cache_inv_dictD:
  assumes "cache_inv h" "is_dict h a"
  shows "set (dict_keys (d_children (dict_at h a))) \<subseteq> d_accessed (dict_at h a)"
proof -
  from assms(2) have a: "a < length h" and ha: "h ! a = DictObj (dict_at h a)"
    by (simp_all add: is_dict_iff)
  from assms(1) a have "case h ! a of DictObj s \<Rightarrow> set (dict_keys (d_children s)) \<subseteq> d_accessed s
        | ListObj s \<Rightarrow> True"
    by (simp add: cache_inv_def)
  then show ?thesis by (subst (asm) ha) simp
qed

lemma cache_inv_evolves:
  assumes inv: "cache_inv h" and d: "is_dict h a" and e: "td_evolves h h' a"
  shows "cache_inv h'"
  unfolding cache_inv_def
proof (intro allI impI)
  fix b assume b: "b < length h'"
  from e have e2: "is_dict h' a"
    and e5: "d_accessed (dict_at h a) \<subseteq> d_accessed (dict_at h' a)"
    and e7: "set (dict_keys (d_children (dict_at h' a))) \<subseteq>
        set (dict_keys (d_children (dict_at h a))) \<union> d_accessed (dict_at h' a)"
    and e8: "\<forall>b < length h. b \<noteq> a \<longrightarrow> h' ! b = h ! b"
    and e9: "\<forall>b. length h \<le> b \<and> b < length h' \<longrightarrow> child_addrs (h' ! b) = []"
    by (simp_all add: td_evolves_def)
  consider "b = a" | "b \<noteq> a" "b < length h" | "length h \<le> b" by linarith
  then show "case h' ! b of DictObj s \<Rightarrow> set (dict_keys (d_children s)) \<subseteq> d_accessed s
        | ListObj s \<Rightarrow> True"
  proof cases
    case 1
    from e2 have ha': "h' ! a = DictObj (dict_at h' a)" by (simp add: is_dict_iff)
    from cache_inv_dictD[OF inv d] e5 e7
    have "set (dict_keys (d_children (dict_at h' a))) \<subseteq> d_accessed (dict_at h' a)" by blast
    with 1 ha' show ?thesis by simp
  next
    case 2
    with e8 have "h' ! b = h ! b" by simp
    with inv 2 show ?thesis by (simp add: cache_inv_def)
  next
    case 3
    with e9 b have c: "child_addrs (h' ! b) = []" by simp
    show ?thesis
    proof (cases "h' ! b")
      case (DictObj s)
      with c have "dict_keys (d_children s) = []" by (simp add: childless_keys)
      with DictObj show ?thesis by simp
    next
      case (ListObj s)
      then show ?thesis by simp
    qed
  qed
qed

lemma cache_inv_tl_frame:
  assumes inv: "cache_inv h" and d: "is_list h l" and fr: "tl_frame h h' l"
    and fresh: "\<forall>b. length h \<le> b \<and> b < length h' \<longrightarrow> child_addrs (h' ! b) = []"
  shows "cache_inv h'"
  unfolding cache_inv_def
proof (intro allI impI)
  fix b assume b: "b < length h'"
  from fr have f2: "is_list h' l" and f8: "\<forall>b < length h. b \<noteq> l \<longrightarrow> h' ! b = h ! b"
    by (simp_all add: tl_frame_def)
  consider "b = l" | "b \<noteq> l" "b < length h" | "length h \<le> b" by linarith
  then show "case h' ! b of DictObj s \<Rightarrow> set (dict_keys (d_children s)) \<subseteq> d_accessed s
        | ListObj s \<Rightarrow> True"
  proof cases
    case 1
    from f2 have "h' ! l = ListObj (list_at h' l)" by (simp add: is_list_iff)
    with 1 show ?thesis by simp
  next
    case 2
    with f8 have "h' ! b = h ! b" by simp
    with inv 2 show ?thesis by (simp add: cache_inv_def)
  next
    case 3
    with fresh b have c: "child_addrs (h' ! b) = []" by simp
    show ?thesis
    proof (cases "h' ! b")
      case (DictObj s)
      with c have "dict_keys (d_children s) = []" by (simp add: childless_keys)
      with DictObj show ?thesis by simp
    next
      case (ListObj s)
      then show ?thesis by simp
    qed
  qed
qed

lemma accessed_grows_dict_step:
  assumes d: "is_dict h a" and e: "td_evolves h h' a"
  shows "\<forall>b. is_dict h b \<longrightarrow> is_dict h' b \<and> d_accessed (dict_at h b) \<subseteq> d_accessed (dict_at h' b)"
proof (intro allI impI)
  fix b assume b: "is_dict h b"
  show "is_dict h' b \<and> d_accessed (dict_at h b) \<subseteq> d_accessed (dict_at h' b)"
  proof (cases "b = a")
    case True
    with e show ?thesis by (simp add: td_evolves_def)
  next
    case False
    from b have "b < length h" by (simp add: is_dict_def)
    with e False have "h' ! b = h ! b" "b < length h'" by (simp_all add: td_evolves_def)
    with b show ?thesis by (simp add: is_dict_def dict_at_def)
  qed
qed

lemma accessed_same_list_step:
  assumes d: "is_list h l" and fr: "tl_frame h h' l"
  shows "\<forall>b. is_dict h b \<longrightarrow> is_dict h' b \<and> d_accessed (dict_at h b) \<subseteq> d_accessed (dict_at h' b)"
proof (intro allI impI)
  fix b assume b: "is_dict h b"
  with d have "b \<noteq> l" by (auto simp: is_dict_def is_list_def split: obj.splits)
  moreover from b have "b < length h" by (simp add: is_dict_def)
  ultimately have "h' ! b = h ! b" "b < length h'" using fr by (simp_all add: tl_frame_def)
  with b show "is_dict h' b \<and> d_accessed (dict_at h b) \<subseteq> d_accessed (dict_at h' b)"
    by (simp add: is_dict_def dict_at_def)
qed

lemma root_invariants:
  "store_ok [DictObj (TrackedDict dat p)]" "cache_inv [DictObj (TrackedDict dat p)]"
  "store_ok [ListObj (TrackedList xs p)]" "cache_inv [ListObj (TrackedList xs p)]"
  by (simp_all add: store_ok_def obj_ok_def cache_inv_def TrackedDict_def TrackedList_def dict_keys_def)

lemma reachable_invariants: "reachable h \<Longrightarrow> store_ok h \<and> cache_inv h"
proof (induction rule: reachable.induct)
  case (root_dict dat p)
  show ?case by (simp add: root_invariants)
next
  case (root_list xs p)
  show ?case by (simp add: root_invariants)
next
  case (dict_step h a c r h')
  then have ok: "store_ok h" and inv: "cache_inv h" by simp_all
  from td_exec_effect[OF ok dict_step.hyps(2), of c] dict_step.hyps(3)
  have "store_ok h'" "td_evolves h h' a" by auto
  with cache_inv_evolves[OF inv dict_step.hyps(2)] show ?case by simp
next
  case (list_step h l lc r h')
  then have ok: "store_ok h" and inv: "cache_inv h" by simp_all
  from tl_exec_effect[OF ok list_step.hyps(2), of lc] list_step.hyps(3)
  have "store_ok h'" "tl_frame h h' l"
    "\<forall>b. length h \<le> b \<and> b < length h' \<longrightarrow> child_addrs (h' ! b) = []" by auto
  with cache_inv_tl_frame[OF inv list_step.hyps(2)] show ?case by simp
qed

lemma cache_inv_ex_deep: "cache_inv ex_deep"
  unfolding ex_deep_eq
  by (simp add: cache_inv_def All_less_Suc eval_nat_numeral dict_keys_def)

text \<open>
  C10. In every store, each key of a map node that has a cached child is in the accessed set
  of that node. The invariant holds of a fresh node, and every public operation of a map node
  (and of a sequence node) preserves it and removes no key from any accessed set; so it holds
  in every store that operations produce from a fresh root. The operations that create a
  child add the key to the accessed set first and wrap afterwards: \<open>_wrap\<close> of a key that is
  already in the accessed set preserves the invariant.
\<close>

theorem cache_keys_are_accessed_keys:
  assumes ok: "store_ok h" and inv: "cache_inv h"
  shows "cache_inv [DictObj (TrackedDict dat p)] \<and>
         (is_dict h a \<longrightarrow>
            (\<exists>r h'. td_exec h a c = Some (r, h') \<and> cache_inv h' \<and>
               (\<forall>b. is_dict h b \<longrightarrow>
                    is_dict h' b \<and> d_accessed (dict_at h b) \<subseteq> d_accessed (dict_at h' b)))) \<and>
         (is_list h l \<longrightarrow>
            (\<exists>r h'. tl_exec h l lc = Some (r, h') \<and> cache_inv h' \<and>
               (\<forall>b. is_dict h b \<longrightarrow>
                    is_dict h' b \<and> d_accessed (dict_at h b) \<subseteq> d_accessed (dict_at h' b)))) \<and>
         (is_dict h a \<and> map_of (d_data (dict_at h a)) k = Some v \<and> k \<in> d_accessed (dict_at h a) \<longrightarrow>
            cache_inv (snd (td_wrap h a k v))) \<and>
         (reachable g \<longrightarrow> cache_inv g)"
proof -
  have p0: "cache_inv [DictObj (TrackedDict dat p)]" by (rule root_invariants)
  have p1: "is_dict h a \<longrightarrow>
            (\<exists>r h'. td_exec h a c = Some (r, h') \<and> cache_inv h' \<and>
               (\<forall>b. is_dict h b \<longrightarrow>
                    is_dict h' b \<and> d_accessed (dict_at h b) \<subseteq> d_accessed (dict_at h' b)))"
  proof
    assume d: "is_dict h a"
    from td_exec_effect[OF ok d, of c] obtain r h' where
      x: "td_exec h a c = Some (r, h')" and e: "td_evolves h h' a" by blast
    from cache_inv_evolves[OF inv d e] accessed_grows_dict_step[OF d e] x
    show "\<exists>r h'. td_exec h a c = Some (r, h') \<and> cache_inv h' \<and>
               (\<forall>b. is_dict h b \<longrightarrow>
                    is_dict h' b \<and> d_accessed (dict_at h b) \<subseteq> d_accessed (dict_at h' b))"
      by blast
  qed
  have p2: "is_list h l \<longrightarrow>
            (\<exists>r h'. tl_exec h l lc = Some (r, h') \<and> cache_inv h' \<and>
               (\<forall>b. is_dict h b \<longrightarrow>
                    is_dict h' b \<and> d_accessed (dict_at h b) \<subseteq> d_accessed (dict_at h' b)))"
  proof
    assume d: "is_list h l"
    from tl_exec_effect[OF ok d, of lc] obtain r h' where
      x: "tl_exec h l lc = Some (r, h')" and fr: "tl_frame h h' l"
      and fresh: "\<forall>b. length h \<le> b \<and> b < length h' \<longrightarrow> child_addrs (h' ! b) = []"
      by blast
    from cache_inv_tl_frame[OF inv d fr fresh] accessed_same_list_step[OF d fr] x
    show "\<exists>r h'. tl_exec h l lc = Some (r, h') \<and> cache_inv h' \<and>
               (\<forall>b. is_dict h b \<longrightarrow>
                    is_dict h' b \<and> d_accessed (dict_at h b) \<subseteq> d_accessed (dict_at h' b))"
      by blast
  qed
  have p3: "is_dict h a \<and> map_of (d_data (dict_at h a)) k = Some v \<and> k \<in> d_accessed (dict_at h a) \<longrightarrow>
            cache_inv (snd (td_wrap h a k v))"
  proof
    assume "is_dict h a \<and> map_of (d_data (dict_at h a)) k = Some v \<and> k \<in> d_accessed (dict_at h a)"
    then have d: "is_dict h a" and v: "map_of (d_data (dict_at h a)) k = Some v"
      and acc: "k \<in> d_accessed (dict_at h a)" by simp_all
    from v have sub: "subscript (d_data (dict_at h a)) k = Inr v" by (simp add: subscript_def)
    from td_wrap_effect[OF d sub] obtain w h' where
      w: "td_wrap h a k v = (Inr w, h')" and fr: "td_frame h h' a"
      and ks: "set (dict_keys (d_children (dict_at h' a))) \<subseteq> insert k (set (dict_keys (d_children (dict_at h a))))"
      and fresh: "\<forall>b. length h \<le> b \<and> b < length h' \<longrightarrow> child_addrs (h' ! b) = []"
      by blast
    from ks have ks': "set (dict_keys (d_children (dict_at h' a))) \<subseteq> {k} \<union> set (dict_keys (d_children (dict_at h a)))"
      by simp
    from acc have K: "{k} \<subseteq> d_accessed (dict_at h a)" by simp
    have "td_evolves h h' a"
      using td_evolves_frame[OF d td_evolves_refl[OF d] fr ks' K fresh] .
    from cache_inv_evolves[OF inv d this] w show "cache_inv (snd (td_wrap h a k v))" by simp
  qed
  have p4: "reachable g \<longrightarrow> cache_inv g" using reachable_invariants by blast
  show ?thesis by (rule conjI[OF p0 conjI[OF p1 conjI[OF p2 conjI[OF p3 p4]]]])
qed

theorem cache_keys_are_accessed_keys_witness:
  "store_ok ex_deep \<and> cache_inv ex_deep \<and> is_dict ex_deep 3 \<and> is_list ex_deep 2 \<and>
   map_of (d_data (dict_at ex_deep 3)) ''c'' = Some (Scalar (SInt 1)) \<and>
   ''c'' \<in> d_accessed (dict_at ex_deep 3) \<and>
   reachable [DictObj (TrackedDict ex_nested [])] \<and>
   cache_inv (snd (td_getitem ex_deep 3 ''d'')) \<and>
   cache_inv (snd (tl_getitem ex_deep 2 0)) \<and>
   cache_inv (snd (td_wrap ex_deep 3 ''c'' (Scalar (SInt 1))))"
proof -
  have f: "is_dict ex_deep 3" "is_list ex_deep 2"
    "map_of (d_data (dict_at ex_deep 3)) ''c'' = Some (Scalar (SInt 1))"
    "''c'' \<in> d_accessed (dict_at ex_deep 3)"
    unfolding ex_deep_eq
    by (simp_all add: is_dict_def is_list_def dict_at_def)
  have r: "reachable [DictObj (TrackedDict ex_nested [])]" by (rule reachable.root_dict)
  from cache_keys_are_accessed_keys[OF store_ok_ex_deep cache_inv_ex_deep,
      where a = 3 and c = "DGetItem ''d''" and l = 2 and lc = "LGetItem 0" and k = "''c''"
        and v = "Scalar (SInt 1)" and g = "[DictObj (TrackedDict ex_nested [])]"]
    f r store_ok_ex_deep cache_inv_ex_deep
  show ?thesis by (auto simp: returning_def)
qed

end
